theory Spec2Isabelle
  imports Main "HOL-Library.Word"
begin

unbundle bit_operations_syntax

section \<open>Bytes and little-endian 32-bit fields\<close>

text \<open>
  Go's \<open>[]byte\<close> is a list of 8-bit words, \<open>uint32\<close> is a 32-bit word whose
  arithmetic wraps.  A byte string literal of the tests, \<open>[]byte("foo")\<close>, is the list
  of the character codes.
\<close>

type_synonym byte = "8 word"
type_synonym uint32 = "32 word"

definition bytes_of :: "string \<Rightarrow> byte list" where
  "bytes_of s = map of_char s"

text \<open>\<open>binary.LittleEndian.PutUint32\<close> and \<open>binary.LittleEndian.Uint32\<close> on a 4-byte slice.\<close>

definition PutUint32 :: "uint32 \<Rightarrow> byte list" where
  "PutUint32 v = [ucast v, ucast (drop_bit 8 v), ucast (drop_bit 16 v), ucast (drop_bit 24 v)]"

definition Uint32 :: "byte list \<Rightarrow> uint32" where
  "Uint32 b = ucast (b ! 0) OR push_bit 8 (ucast (b ! 1)) OR push_bit 16 (ucast (b ! 2))
                OR push_bit 24 (ucast (b ! 3))"

section \<open>The hash function (hash.go)\<close>

definition start :: uint32 where
  "start = 5381"

text \<open>
  \<open>CDBHashSum32Update\<close> (hash.go:26): the loop \<open>for _, b := range data\<close> over the bytes,
  with the accumulator \<open>v\<close>.
\<close>

primrec CDBHashSum32Update :: "byte list \<Rightarrow> uint32 \<Rightarrow> uint32" where
  "CDBHashSum32Update [] v = v"
| "CDBHashSum32Update (b # data) v =
     CDBHashSum32Update data ((push_bit 5 v + v) XOR ucast b)"

definition CDBHashSum32 :: "byte list \<Rightarrow> uint32" where
  "CDBHashSum32 data = CDBHashSum32Update data start"

text \<open>
  The digest object \<open>cdbHash\<close> (hash.go:9) holds one \<open>uint32\<close>; \<open>Write\<close> updates it,
  \<open>Sum32\<close> reads it.
\<close>

definition newCDBHash :: uint32 where
  "newCDBHash = start"

definition cdbHash_Write :: "uint32 \<Rightarrow> byte list \<Rightarrow> uint32" where
  "cdbHash_Write h data = CDBHashSum32Update data h"

definition cdbHash_Sum32 :: "uint32 \<Rightarrow> uint32" where
  "cdbHash_Sum32 h = h"

text \<open>
  The older one-shot function \<open>cdbHash\<close> (hash.go:59), which the test calls: the same loop,
  started at \<open>start\<close>.
\<close>

primrec cdbHash_loop :: "byte list \<Rightarrow> uint32 \<Rightarrow> uint32" where
  "cdbHash_loop [] v = v"
| "cdbHash_loop (b # data) v = cdbHash_loop data ((push_bit 5 v + v) XOR ucast b)"

definition cdbHash :: "byte list \<Rightarrow> uint32" where
  "cdbHash data = cdbHash_loop data start"

text \<open>
  The hash as the specification words it, on natural numbers with the reduction modulo
  \<open>2 ^ 32\<close> written out: \<open>v = 5381\<close>, then \<open>v = ((v << 5) + v) XOR b\<close> for each byte.
\<close>

primrec hash_spec_from :: "nat \<Rightarrow> nat list \<Rightarrow> nat" where
  "hash_spec_from v [] = v"
| "hash_spec_from v (b # bs) =
     hash_spec_from ((((v * 2 ^ 5) mod 2 ^ 32 + v) mod 2 ^ 32) XOR b) bs"

definition hash_spec :: "nat list \<Rightarrow> nat" where
  "hash_spec bs = hash_spec_from 5381 bs"

section \<open>Errors and the byte store\<close>

text \<open>
  Errors are values.  \<open>EOF\<close> is what \<open>ReadAt\<close> answers when the store is shorter than the
  read; \<open>ErrTooMuchData\<close> and \<open>ErrInvalid\<close> are the writer's own errors; the three
  \<open>Panic\<close> values are Go's run-time panics (a method called on the nil
  \<open>*bufio.Writer\<close>, an integer division by zero, a slice expression out of range),
  which leave the function without a result.  \<open>ErrClosed\<close> is what \<open>Close\<close> of a
  file answers when the file is closed already.
\<close>

datatype error =
    EOF
  | ErrTooMuchData
  | ErrInvalid
  | ErrClosed
  | PanicNilPointer
  | PanicDivideByZero
  | PanicSliceBounds

text \<open>
  The \<open>io.ReaderAt\<close> is a file held as its bytes.  \<open>ReadAt r n off\<close> fills a buffer of
  \<open>n\<close> bytes from offset \<open>off\<close>: a buffer of length 0 reads nothing and succeeds, any
  other read that does not fit in the file ends with \<open>io.EOF\<close>.
\<close>

definition ReadAt :: "byte list \<Rightarrow> nat \<Rightarrow> nat \<Rightarrow> error + byte list" where
  "ReadAt r n off =
     (if n = 0 then Inr []
      else if off + n \<le> length r then Inr (take n (drop off r))
      else Inl EOF)"

text \<open>
  \<open>readTuple\<close> (part_002:141, util.go:22; the reader of part_003 calls it as a function of
  the reader): eight bytes at \<open>offset\<close>, decoded as two little-endian \<open>uint32\<close>.
\<close>

definition readTuple :: "byte list \<Rightarrow> uint32 \<Rightarrow> error + (uint32 \<times> uint32)" where
  "readTuple r offset =
     (case ReadAt r 8 (unat offset) of
        Inl err \<Rightarrow> Inl err
      | Inr tuple \<Rightarrow> Inr (Uint32 (take 4 tuple), Uint32 (drop 4 tuple)))"

text \<open>\<open>writeTuple\<close> (util.go:33): the eight bytes that are handed to the writer.\<close>

definition writeTuple :: "uint32 \<Rightarrow> uint32 \<Rightarrow> byte list" where
  "writeTuple first second = PutUint32 first @ PutUint32 second"

text \<open>
  The \<open>io.WriteSeeker\<close> is a seekable file in memory: its bytes and the current position.
  Writing at the position overwrites what is there and extends the file as needed (a gap
  left by a seek past the end reads as zeros); a write of no bytes changes nothing.  Its
  writes and seeks do not fail, so the \<open>err != nil\<close> returns that only pass on an error
  of the sink have no branch here.  The two flags \<open>isReaderAt\<close> and \<open>isCloser\<close> say
  whether the sink also implements \<open>io.ReaderAt\<close> and \<open>io.Closer\<close>, which \<open>Freeze\<close>
  and \<open>Close\<close> ask with a type assertion.  \<open>closed\<close> says whether the sink's
  \<open>Close\<close> has been called: \<open>sink_Close\<close> is the \<open>Close\<close> of an \<open>*os.File\<close>, which
  succeeds once and answers an error from then on, and leaves the bytes alone.  An
  \<open>*os.File\<close> also refuses a write once it is closed, which this sink does not; none
  of the runs below writes to the sink after closing it.
\<close>

record sink =
  contents :: "byte list"
  position :: nat
  isReaderAt :: bool
  isCloser :: bool
  closed :: bool

definition write_at :: "byte list \<Rightarrow> nat \<Rightarrow> byte list \<Rightarrow> byte list" where
  "write_at f p bs =
     (if bs = [] then f
      else take p f @ replicate (p - length f) 0 @ bs @ drop (p + length bs) f)"

definition sink_Write :: "sink \<Rightarrow> byte list \<Rightarrow> sink" where
  "sink_Write w bs =
     w\<lparr>contents := write_at (contents w) (position w) bs,
       position := position w + length bs\<rparr>"

definition sink_Seek :: "sink \<Rightarrow> nat \<Rightarrow> sink" where
  "sink_Seek w off = w\<lparr>position := off\<rparr>"

definition sink_Close :: "sink \<Rightarrow> error option \<times> sink" where
  "sink_Close w = (if closed w then (Some ErrClosed, w) else (None, w\<lparr>closed := True\<rparr>))"

section \<open>The index and the reader (part_003)\<close>

text \<open>
  \<open>table\<close> (part_003:25) and \<open>entry\<close> (writer.go:27) both have a field \<open>offset\<close>; the
  fields carry the struct's initial here.  \<open>index\<close> is \<open>[256]table\<close>, a list whose
  length is 256 in every value the code builds.
\<close>

record table =
  t_offset :: uint32
  t_length :: uint32

record entry =
  e_hash :: uint32
  e_offset :: uint32

definition indexSize :: nat where
  "indexSize = 256 * 8"

record CDB =
  reader :: "byte list"
  index :: "table list"

text \<open>
  \<open>readIndex\<close> (part_003:136) reads the header and decodes the 256 pairs; \<open>New\<close>
  (part_003:44) opens a store on a reader.
\<close>

definition readIndex :: "byte list \<Rightarrow> error + table list" where
  "readIndex r =
     (case ReadAt r indexSize 0 of
        Inl err \<Rightarrow> Inl err
      | Inr buf \<Rightarrow>
          Inr (map (\<lambda>i. let off = i * 8 in
                     \<lparr>t_offset = Uint32 (take 4 (drop off buf)),
                      t_length = Uint32 (take 4 (drop (off + 4) buf))\<rparr>) [0..<256]))"

definition New :: "byte list \<Rightarrow> error + CDB" where
  "New r = (case readIndex r of
              Inl err \<Rightarrow> Inl err
            | Inr idx \<Rightarrow> Inr \<lparr>reader = r, index = idx\<rparr>)"

text \<open>
  \<open>getValueAt\<close> (part_003:154).  The result \<open>Inr None\<close> is Go's \<open>nil, nil\<close> (not this
  record), \<open>Inr (Some v)\<close> is a value, which is a non-nil slice also when it is empty.
  \<open>keyLength+valueLength\<close> and \<open>offset+8\<close> are \<open>uint32\<close> sums and wrap; when the
  sum of the lengths wraps, the buffer is shorter than the key and \<open>buf[:keyLength]\<close>
  panics.
\<close>

definition getValueAt :: "byte list \<Rightarrow> uint32 \<Rightarrow> byte list \<Rightarrow> error + byte list option" where
  "getValueAt r offset expectedKey =
     (case readTuple r offset of
        Inl err \<Rightarrow> Inl err
      | Inr (keyLength, valueLength) \<Rightarrow>
          if unat keyLength \<noteq> length expectedKey then Inr None
          else
            (case ReadAt r (unat (keyLength + valueLength)) (unat (offset + 8)) of
               Inl err \<Rightarrow> Inl err
             | Inr buf \<Rightarrow>
                 if length buf < unat keyLength then Inl PanicSliceBounds
                 else if take (unat keyLength) buf \<noteq> expectedKey then Inr None
                 else Inr (Some (drop (unat keyLength) buf))))"

text \<open>
  The probe loop of \<open>Get\<close> (part_003:99-122).  \<open>startingSlot\<close> is computed once before the
  loop from \<open>hash\<close> and \<open>table\<close>; the loop function takes those two and the running
  \<open>slot\<close>.  The source reaches the loop only with \<open>table.length\<close> not 0; the remainder
  by 0 that Go would answer with a panic is written out.
\<close>

definition startingSlot :: "uint32 \<Rightarrow> table \<Rightarrow> uint32" where
  "startingSlot hash table = drop_bit 8 hash mod t_length table"

function probe ::
  "byte list \<Rightarrow> table \<Rightarrow> uint32 \<Rightarrow> byte list \<Rightarrow> uint32 \<Rightarrow> error + byte list option"
where
  "probe r table hash key slot =
     (let slotOffset = t_offset table + 8 * slot in
      case readTuple r slotOffset of
        Inl err \<Rightarrow> Inl err
      | Inr (slotHash, offset) \<Rightarrow>
          if slotHash = 0 then Inr None
          else
            (case (if slotHash = hash then getValueAt r offset key else Inr None) of
               Inl err \<Rightarrow> Inl err
             | Inr (Some v) \<Rightarrow> Inr (Some v)
             | Inr None \<Rightarrow>
                 if t_length table = 0 then Inl PanicDivideByZero
                 else
                   (let slot' = (slot + 1) mod t_length table in
                    if slot' = startingSlot hash table then Inr None
                    else probe r table hash key slot')))"
  by pat_completeness auto

text \<open>
  The loop ends: \<open>probe_left\<close> counts the slots still to be read before \<open>slot\<close> is back
  at \<open>startingSlot\<close>.
\<close>

definition probe_left :: "table \<Rightarrow> uint32 \<Rightarrow> uint32 \<Rightarrow> nat" where
  "probe_left table hash slot =
     (let n = unat (t_length table); s = unat (startingSlot hash table); c = unat slot in
      if c < n then (if c < s then s - 1 - c else s + n - 1 - c) else n)"

lemma unat_next_slot:
  fixes slot len :: uint32
  assumes "unat slot < unat len"
  shows "unat ((slot + 1) mod len) = (if unat slot + 1 = unat len then 0 else unat slot + 1)"
proof -
  have "unat len < 2 ^ 32"
    using unsigned_less [of len, where 'a = nat] by simp
  with assms have "unat (slot + 1) = unat slot + 1"
    by (simp add: unat_word_ariths)
  with assms show ?thesis
    by (simp add: unat_mod)
qed

lemma unat_mod_less:
  fixes a len :: uint32
  assumes "len \<noteq> 0"
  shows "unat (a mod len) < unat len"
  using assms by (simp add: unat_mod unat_gt_0)

termination probe
proof (relation "measure (\<lambda>(r, table, hash, key, slot). probe_left table hash slot)")
  show "wf (measure (\<lambda>(r, table, hash, key, slot). probe_left table hash slot))"
    by simp
next
  fix r key :: "byte list" and table hash slot and slot' :: uint32
  assume len: "t_length table \<noteq> 0"
    and s': "slot' = (slot + 1) mod t_length table"
    and ne: "slot' \<noteq> startingSlot hash table"
  let ?n = "unat (t_length table)" and ?s = "unat (startingSlot hash table)"
  have s_lt: "?s < ?n"
    unfolding startingSlot_def using len by (rule unat_mod_less)
  have c'_lt: "unat slot' < ?n"
    unfolding s' using len by (rule unat_mod_less)
  have ne': "unat slot' \<noteq> ?s"
    using ne by (simp add: word_unat_eq_iff)
  have "probe_left table hash slot' < probe_left table hash slot"
  proof (cases "unat slot < ?n")
    case True
    have "unat slot' = (if unat slot + 1 = ?n then 0 else unat slot + 1)"
      unfolding s' using True by (rule unat_next_slot)
    with True s_lt ne' show ?thesis
      by (auto simp: probe_left_def Let_def split: if_splits)
  next
    case False
    with c'_lt s_lt show ?thesis
      by (auto simp: probe_left_def Let_def split: if_splits)
  qed
  then show "((r, table, hash, key, slot'), r, table, hash, key, slot)
      \<in> measure (\<lambda>(r, table, hash, key, slot). probe_left table hash slot)"
    by simp
qed

declare probe.simps [simp del]

text \<open>\<open>Get\<close> (part_003:85).\<close>

definition Get :: "CDB \<Rightarrow> byte list \<Rightarrow> error + byte list option" where
  "Get cdb key =
     (let digest = cdbHash_Write newCDBHash key;
          hash = cdbHash_Sum32 digest;
          table = index cdb ! unat (hash AND 0xff)
      in if t_length table = 0 then Inr None
         else probe (reader cdb) table hash key (startingSlot hash table))"

text \<open>
  \<open>Each\<close> (part_003:56).  The visitor \<open>eachFunc\<close> is a Go closure: it gets the key and
  the value, may change its own state \<open>'s\<close> and answers an error or nil.  The loop
  \<open>for pos < endPos\<close> advances \<open>pos\<close> by a \<open>uint32\<close> sum that wraps, so on an
  arbitrary file it need not end: the result is an option, \<open>None\<close> when the loop runs
  forever.
\<close>

partial_function (option) Each_loop ::
  "byte list \<Rightarrow> (byte list \<Rightarrow> byte list \<Rightarrow> 's \<Rightarrow> error option \<times> 's) \<Rightarrow> uint32 \<Rightarrow> uint32 \<Rightarrow> 's
     \<Rightarrow> (error option \<times> 's) option"
where
  "Each_loop r eachFunc endPos pos s =
     (if pos < endPos then
        (case readTuple r pos of
           Inl err \<Rightarrow> Some (Some err, s)
         | Inr (keyLength, valueLength) \<Rightarrow>
             (case ReadAt r (unat (keyLength + valueLength)) (unat (pos + 8)) of
                Inl err \<Rightarrow> Some (Some err, s)
              | Inr buf \<Rightarrow>
                  if length buf < unat keyLength then Some (Some PanicSliceBounds, s)
                  else
                    (case eachFunc (take (unat keyLength) buf) (drop (unat keyLength) buf) s of
                       (Some err, s') \<Rightarrow> Some (Some err, s')
                     | (None, s') \<Rightarrow>
                         Each_loop r eachFunc endPos (pos + (8 + keyLength + valueLength)) s')))
      else Some (None, s))"

definition Each ::
  "CDB \<Rightarrow> (byte list \<Rightarrow> byte list \<Rightarrow> 's \<Rightarrow> error option \<times> 's) \<Rightarrow> 's \<Rightarrow> (error option \<times> 's) option"
where
  "Each cdb eachFunc s =
     (let pos = of_nat indexSize;
          endPos = t_offset (index cdb ! 0)
      in Each_loop (reader cdb) eachFunc endPos pos s)"

text \<open>
  The older \<open>Get\<close> (part_002:51) has the same loop without the test against the
  starting slot: it leaves only at a stored hash 0, at an error or at a value, so it need
  not end, and its result is an option.
\<close>

partial_function (option) probe_unguarded ::
  "byte list \<Rightarrow> table \<Rightarrow> uint32 \<Rightarrow> byte list \<Rightarrow> uint32 \<Rightarrow> (error + byte list option) option"
where
  "probe_unguarded r table hash key slot =
     (let slotOffset = t_offset table + 8 * slot in
      case readTuple r slotOffset of
        Inl err \<Rightarrow> Some (Inl err)
      | Inr (slotHash, offset) \<Rightarrow>
          if slotHash = 0 then Some (Inr None)
          else
            (case (if slotHash = hash then getValueAt r offset key else Inr None) of
               Inl err \<Rightarrow> Some (Inl err)
             | Inr (Some v) \<Rightarrow> Some (Inr (Some v))
             | Inr None \<Rightarrow>
                 if t_length table = 0 then Some (Inl PanicDivideByZero)
                 else probe_unguarded r table hash key ((slot + 1) mod t_length table)))"

definition Get_unguarded :: "CDB \<Rightarrow> byte list \<Rightarrow> (error + byte list option) option" where
  "Get_unguarded cdb key =
     (let digest = cdbHash_Write newCDBHash key;
          hash = cdbHash_Sum32 digest;
          table = index cdb ! unat (hash AND 0xff)
      in if t_length table = 0 then Some (Inr None)
         else probe_unguarded (reader cdb) table hash key (drop_bit 8 hash mod t_length table))"

section \<open>The writer (writer.go:1-192)\<close>

text \<open>
  The \<open>*bufio.Writer\<close> that \<open>NewWriter\<close> creates has a buffer of 4096 bytes
  (\<open>bufio.NewWriter\<close>, \<open>defaultBufSize\<close>) in front of the sink.  \<open>bufio_Write wr buf p\<close>
  is its \<open>Write(p)\<close> with the sink \<open>wr\<close> and the buffered bytes \<open>buf\<close>: while \<open>p\<close> is
  longer than the room left, an empty buffer passes \<open>p\<close> to the sink directly, and any
  other buffer is filled up from \<open>p\<close> and written to the sink; what is left of \<open>p\<close> is
  copied into the buffer.  \<open>bufio_Flush\<close> writes the buffered bytes, if there are any,
  to the sink.  Both return the sink and the bytes still buffered.  As the writes of the
  sink do not fail, the \<open>bufio.Writer\<close> never holds an error.
\<close>

definition defaultBufSize :: nat where
  "defaultBufSize = 4096"

function bufio_Write :: "sink \<Rightarrow> byte list \<Rightarrow> byte list \<Rightarrow> sink \<times> byte list" where
  "bufio_Write wr buf p =
     (if length p > defaultBufSize - length buf
      then (if buf = [] then (sink_Write wr p, [])
            else (let n = defaultBufSize - length buf;
                      buf = buf @ take n p;
                      wr = sink_Write wr buf
                  in bufio_Write wr [] (drop n p)))
      else (wr, buf @ p))"
  by pat_completeness auto
termination
  by (relation "measure (\<lambda>(wr, buf, p). if buf = [] then 0 else 1)") auto

declare bufio_Write.simps [simp del]

definition bufio_Flush :: "sink \<Rightarrow> byte list \<Rightarrow> sink \<times> byte list" where
  "bufio_Flush wr buf = (if buf = [] then (wr, []) else (sink_Write wr buf, []))"

text \<open>
  \<open>bufferedWriter\<close> is the pointer to the \<open>bufio.Writer\<close>: the bytes in its buffer (the
  sink it writes to is \<open>writer\<close>, the same object), or \<open>None\<close> once \<open>finalize\<close> has set
  the pointer to nil.  \<open>bufferedOffset\<close> is an \<open>int64\<close>; it is an integer here, since
  it grows by the lengths of slices held in memory and cannot reach \<open>2 ^ 63\<close>.
  \<open>finalizeOnce\<close> is the \<open>sync.Once\<close>: whether its function has run.
\<close>

record Writer =
  writer :: sink
  entries :: "entry list list"
  finalizeOnce :: bool
  bufferedWriter :: "byte list option"
  bufferedOffset :: int

definition maxUint32 :: int where
  "maxUint32 = 4294967295"

definition zero_index :: "table list" where
  "zero_index = replicate 256 \<lparr>t_offset = 0, t_length = 0\<rparr>"

text \<open>\<open>NewWriter\<close> (writer.go:44): seek to 0, write the 2048 zero bytes of the header.\<close>

definition NewWriter :: "sink \<Rightarrow> Writer" where
  "NewWriter w =
     (let w = sink_Seek w 0;
          w = sink_Write w (replicate indexSize 0)
      in \<lparr>writer = w, entries = replicate 256 [], finalizeOnce = False,
          bufferedWriter = Some [], bufferedOffset = int indexSize\<rparr>)"

text \<open>
  \<open>Put\<close> (writer.go:65).  The entry is appended to its bucket before anything is written;
  \<open>uint32(cdb.bufferedOffset)\<close> and \<open>uint32(len(key))\<close> truncate.  With the
  \<open>bufferedWriter\<close> nil, the first write panics.  Otherwise the length pair, the key and
  the value are three writes to the \<open>bufio.Writer\<close>.
\<close>

definition Put :: "Writer \<Rightarrow> byte list \<Rightarrow> byte list \<Rightarrow> error option \<times> Writer" where
  "Put cdb key value =
     (let digest = cdbHash_Write newCDBHash key;
          hash = cdbHash_Sum32 digest;
          table = unat (hash AND 0xff);
          entry = \<lparr>e_hash = hash, e_offset = word_of_int (bufferedOffset cdb)\<rparr>;
          cdb = cdb\<lparr>entries := (entries cdb)[table := entries cdb ! table @ [entry]]\<rparr>
      in case bufferedWriter cdb of
           None \<Rightarrow> (Some PanicNilPointer, cdb)
         | Some buf \<Rightarrow>
             (case bufio_Write (writer cdb) buf
                     (writeTuple (of_nat (length key)) (of_nat (length value))) of
                (wr, buf) \<Rightarrow>
             (case bufio_Write wr buf key of
                (wr, buf) \<Rightarrow>
             (case bufio_Write wr buf value of
                (wr, buf) \<Rightarrow>
                  (let cdb = cdb\<lparr>writer := wr, bufferedWriter := Some buf,
                               bufferedOffset :=
                                 bufferedOffset cdb + int (8 + length key + length value)\<rparr>
                   in if bufferedOffset cdb > maxUint32 then (Some ErrTooMuchData, cdb)
                      else (None, cdb))))))"

text \<open>
  \<open>finalize\<close> (writer.go:142).  \<open>write_entries\<close> is the inner loop over one bucket's
  entries, \<open>finalize_tables\<close> the outer loop \<open>for i := 0; i < 256; i++\<close>; both carry
  the sink, the buffer and the offset.  \<open>encode_index\<close> is the loop that fills the header
  buffer, eight bytes per table at \<open>i * 8\<close>.
\<close>

fun write_entries ::
  "entry list \<Rightarrow> sink \<Rightarrow> byte list \<Rightarrow> int \<Rightarrow> error option \<times> sink \<times> byte list \<times> int"
where
  "write_entries [] wr buf off = (None, wr, buf, off)"
| "write_entries (entry # tableEntries) wr buf off =
     (case bufio_Write wr buf (writeTuple (e_hash entry) (e_offset entry)) of
        (wr, buf) \<Rightarrow>
          (let off = off + 8
           in if off > maxUint32 then (Some ErrTooMuchData, wr, buf, off)
              else write_entries tableEntries wr buf off))"

fun finalize_tables ::
  "nat list \<Rightarrow> entry list list \<Rightarrow> table list \<Rightarrow> sink \<Rightarrow> byte list \<Rightarrow> int
     \<Rightarrow> error option \<times> table list \<times> sink \<times> byte list \<times> int"
where
  "finalize_tables [] ents idx wr buf off = (None, idx, wr, buf, off)"
| "finalize_tables (i # is) ents idx wr buf off =
     (let tableEntries = ents ! i;
          idx = idx[i := \<lparr>t_offset = word_of_int off,
                          t_length = of_nat (length tableEntries)\<rparr>]
      in case write_entries tableEntries wr buf off of
           (Some err, wr, buf, off) \<Rightarrow> (Some err, idx, wr, buf, off)
         | (None, wr, buf, off) \<Rightarrow> finalize_tables is ents idx wr buf off)"

definition encode_index :: "table list \<Rightarrow> byte list" where
  "encode_index idx = concat (map (\<lambda>table. PutUint32 (t_offset table) @ PutUint32 (t_length table)) idx)"

definition finalize :: "Writer \<Rightarrow> table list \<times> error option \<times> Writer" where
  "finalize cdb =
     (case bufferedWriter cdb of
        None \<Rightarrow> (zero_index, Some PanicNilPointer, cdb)
      | Some buf \<Rightarrow>
          (case finalize_tables [0..<256] (entries cdb) zero_index (writer cdb) buf
                  (bufferedOffset cdb) of
             (Some err, idx, wr, buf, off) \<Rightarrow>
               (idx, Some err,
                cdb\<lparr>writer := wr, bufferedWriter := Some buf, bufferedOffset := off\<rparr>)
           | (None, idx, wr, buf, off) \<Rightarrow>
               (case bufio_Flush wr buf of
                  (wr, buf) \<Rightarrow>
                    (let w = sink_Seek wr 0;
                         w = sink_Write w (encode_index idx)
                     in (idx, None,
                         cdb\<lparr>writer := w, bufferedWriter := None, bufferedOffset := off\<rparr>)))))"

text \<open>
  \<open>finalizeOnce.Do\<close> runs \<open>finalize\<close> if it has not run before and marks it done; a
  later call runs nothing, and its caller sees the zero values of \<open>index\<close> and \<open>err\<close>.
\<close>

definition finalizeOnce_Do :: "Writer \<Rightarrow> table list \<times> error option \<times> Writer" where
  "finalizeOnce_Do cdb =
     (if finalizeOnce cdb then (zero_index, None, cdb)
      else (case finalize cdb of
              (idx, err, cdb) \<Rightarrow> (idx, err, cdb\<lparr>finalizeOnce := True\<rparr>)))"

text \<open>
  \<open>Close\<close> (writer.go:102) and \<open>Freeze\<close> (writer.go:124).  \<open>Close\<close> returns the error of
  \<open>finalize\<close> if this call ran it and it failed; otherwise, when the sink is an
  \<open>io.Closer\<close>, it closes the sink and returns what that \<open>Close\<close> returns.  The reader
  that \<open>Freeze\<close> returns is the sink itself, read here as the bytes it holds when
  \<open>Freeze\<close> returns; the statements below read through it before anything else is done
  with the writer.
\<close>

definition Close :: "Writer \<Rightarrow> error option \<times> Writer" where
  "Close cdb =
     (case finalizeOnce_Do cdb of
        (idx, Some err, cdb) \<Rightarrow> (Some err, cdb)
      | (idx, None, cdb) \<Rightarrow>
          if isCloser (writer cdb)
          then (case sink_Close (writer cdb) of (err, w) \<Rightarrow> (err, cdb\<lparr>writer := w\<rparr>))
          else (None, cdb))"

definition Freeze :: "Writer \<Rightarrow> (error + CDB) \<times> Writer" where
  "Freeze cdb =
     (case finalizeOnce_Do cdb of
        (idx, Some err, cdb) \<Rightarrow> (Inl err, cdb)
      | (idx, None, cdb) \<Rightarrow>
          if isReaderAt (writer cdb)
          then (Inr \<lparr>reader = contents (writer cdb), index = idx\<rparr>, cdb)
          else (Inl ErrInvalid, cdb))"

text \<open>
  A client that writes a list of records and stops at the first error, as the tests do
  (\<open>err := writer.Put(...); require.NoError(t, err)\<close>).
\<close>

fun put_all :: "Writer \<Rightarrow> (byte list \<times> byte list) list \<Rightarrow> error option \<times> Writer" where
  "put_all cdb [] = (None, cdb)"
| "put_all cdb ((key, value) # records) =
     (case Put cdb key value of
        (Some err, cdb) \<Rightarrow> (Some err, cdb)
      | (None, cdb) \<Rightarrow> put_all cdb records)"

text \<open>
  The two ways in which the tests obtain a store: \<open>TestWritesReadable\<close> creates a writer
  on a file, puts the records, and reads through what \<open>Freeze\<close> returns;
  \<open>TestGet\<close> opens a finished file with \<open>New\<close>, here the file that \<open>Close\<close> left.
\<close>

definition build_Freeze :: "sink \<Rightarrow> (byte list \<times> byte list) list \<Rightarrow> error + CDB" where
  "build_Freeze w records =
     (case put_all (NewWriter w) records of
        (Some err, cdb) \<Rightarrow> Inl err
      | (None, cdb) \<Rightarrow> fst (Freeze cdb))"

definition build_Close :: "sink \<Rightarrow> (byte list \<times> byte list) list \<Rightarrow> error + CDB" where
  "build_Close w records =
     (case put_all (NewWriter w) records of
        (Some err, cdb) \<Rightarrow> Inl err
      | (None, cdb) \<Rightarrow>
          (case Close cdb of
             (Some err, cdb) \<Rightarrow> Inl err
           | (None, cdb) \<Rightarrow> New (contents (writer cdb))))"

text \<open>
  A file just created, as \<open>ioutil.TempFile\<close> gives one to the tests, and the records of
  the test data (\<open>expectedRecords\<close>, part_000:12, without its last line, the key that is
  not in the table).
\<close>

definition empty_file :: sink where
  "empty_file =
     \<lparr>contents = [], position = 0, isReaderAt = True, isCloser = True, closed = False\<rparr>"

definition expectedRecords :: "(byte list \<times> byte list) list" where
  "expectedRecords =
     [(bytes_of ''foo'', bytes_of ''bar''),
      (bytes_of ''baz'', bytes_of ''quuuux''),
      (bytes_of ''playwright'', bytes_of ''wow''),
      (bytes_of ''crystal'', bytes_of ''CASTLES''),
      (bytes_of ''CRYSTAL'', bytes_of ''castles''),
      (bytes_of ''snush'', bytes_of ''collision!''),
      (bytes_of ''a'', bytes_of ''a''),
      (bytes_of [], bytes_of ''empty_key''),
      (bytes_of ''empty_value'', bytes_of [])]"

text \<open>
  Two records whose keys both fall into bucket 0: the first key has the hash 0, the
  second the hash 5861376, whose starting slot in a table of two entries is 0.
\<close>

definition shadowRecords :: "(byte list \<times> byte list) list" where
  "shadowRecords =
     [(bytes_of ''vpbzfti'', bytes_of ''zero''),
      (bytes_of ''pu'', bytes_of ''hidden'')]"

text \<open>
  A client that ends the writing with a sequence of finishing calls, \<open>Close\<close> and
  \<open>Freeze\<close> in any combination: \<open>finish\<close> is the writer after one call,
  \<open>finish_all\<close> the writer after all of them.
\<close>

datatype finish_op = OpClose | OpFreeze

fun finish :: "Writer \<Rightarrow> finish_op \<Rightarrow> Writer" where
  "finish cdb OpClose = snd (Close cdb)"
| "finish cdb OpFreeze = snd (Freeze cdb)"

fun finish_all :: "Writer \<Rightarrow> finish_op list \<Rightarrow> Writer" where
  "finish_all cdb [] = cdb"
| "finish_all cdb (op # ops) = finish_all (finish cdb op) ops"

section \<open>The unbuffered writer (writer.go:193-369)\<close>







section \<open>The bytes a run of the writer produces\<close>

text \<open>
  These functions name the pieces of the file for the proofs: the bytes of one record,
  of all records, of one table entry and of the tables of the buckets \<open>a\<close> up to \<open>b\<close>;
  the number of entries in those buckets; and the entries that a list of records, put
  from the offset \<open>off\<close> on, adds to bucket \<open>b\<close>.
\<close>

definition record_bytes :: "byte list \<times> byte list \<Rightarrow> byte list" where
  "record_bytes kv =
     writeTuple (of_nat (length (fst kv))) (of_nat (length (snd kv))) @ fst kv @ snd kv"

definition data_bytes :: "(byte list \<times> byte list) list \<Rightarrow> byte list" where
  "data_bytes records = concat (map record_bytes records)"

definition entry_bytes :: "entry \<Rightarrow> byte list" where
  "entry_bytes e = writeTuple (e_hash e) (e_offset e)"

definition tables_bytes :: "entry list list \<Rightarrow> nat \<Rightarrow> nat \<Rightarrow> byte list" where
  "tables_bytes ents a b = concat (map (\<lambda>i. concat (map entry_bytes (ents ! i))) [a..<b])"

definition entry_count :: "entry list list \<Rightarrow> nat \<Rightarrow> nat \<Rightarrow> nat" where
  "entry_count ents a b = sum_list (map (\<lambda>i. length (ents ! i)) [a..<b])"

fun pending :: "int \<Rightarrow> (byte list \<times> byte list) list \<Rightarrow> nat \<Rightarrow> entry list" where
  "pending off [] b = []"
| "pending off (kv # records) b =
     (if unat (CDBHashSum32 (fst kv) AND 0xff) = b
      then [\<lparr>e_hash = CDBHashSum32 (fst kv), e_offset = word_of_int off\<rparr>] else [])
     @ pending (off + int (length (record_bytes kv))) records b"

text \<open>
  The state and the file after \<open>NewWriter\<close>, the \<open>Put\<close>s of \<open>records\<close> and
  \<open>finalize\<close>: the pending entries of the 256 buckets, the index, the bytes after the
  header, and the file, which starts from the bytes \<open>f\<close> that the sink held before.
\<close>

definition pending_all :: "(byte list \<times> byte list) list \<Rightarrow> entry list list" where
  "pending_all records = map (pending (int indexSize) records) [0..<256]"

definition built_index :: "(byte list \<times> byte list) list \<Rightarrow> table list" where
  "built_index records =
     map (\<lambda>i. \<lparr>t_offset = word_of_int (int indexSize + int (length (data_bytes records))
                    + 8 * int (entry_count (pending_all records) 0 i)),
                t_length = of_nat (length (pending_all records ! i))\<rparr>) [0..<256]"

definition body_bytes :: "(byte list \<times> byte list) list \<Rightarrow> byte list" where
  "body_bytes records = data_bytes records @ tables_bytes (pending_all records) 0 256"

definition built_file :: "byte list \<Rightarrow> (byte list \<times> byte list) list \<Rightarrow> byte list" where
  "built_file f records =
     write_at (write_at (write_at f 0 (replicate indexSize 0)) indexSize (body_bytes records))
       0 (encode_index (built_index records))"

text \<open>
  The records fit when the file, with its header, its records and one table entry for each
  record, stays within the offsets a \<open>uint32\<close> can hold.  \<open>record_offset\<close> is where
  the \<open>i\<close>-th record starts.
\<close>

definition fits :: "(byte list \<times> byte list) list \<Rightarrow> bool" where
  "fits records \<longleftrightarrow>
     int indexSize + int (length (data_bytes records)) + 8 * int (length records) \<le> maxUint32"

definition record_offset :: "(byte list \<times> byte list) list \<Rightarrow> nat \<Rightarrow> nat" where
  "record_offset records i = indexSize + length (data_bytes (take i records))"

text \<open>
  For the proofs, the probe loop as a scan of a list of table entries, taken in the order
  in which the loop reads them: it stops at an entry whose hash is 0, at an error, at a
  value, or at the end of the list.
\<close>

fun scan_entries :: "byte list \<Rightarrow> uint32 \<Rightarrow> byte list \<Rightarrow> entry list \<Rightarrow> error + byte list option" where
  "scan_entries r hash key [] = Inr None"
| "scan_entries r hash key (e # es) =
     (if e_hash e = 0 then Inr None
      else
        (case (if e_hash e = hash then getValueAt r (e_offset e) key else Inr None) of
           Inl err \<Rightarrow> Inl err
         | Inr (Some v) \<Rightarrow> Inr (Some v)
         | Inr None \<Rightarrow> scan_entries r hash key es))"

definition built_CDB :: "byte list \<Rightarrow> (byte list \<times> byte list) list \<Rightarrow> CDB" where
  "built_CDB f records = \<lparr>reader = built_file f records, index = built_index records\<rparr>"

text \<open>
  What \<open>Each\<close> is to do, in the words of the specification: call the visitor on the
  records in \<open>Put\<close> order and stop at the first error it returns.
\<close>

fun visit_all ::
  "(byte list \<Rightarrow> byte list \<Rightarrow> 's \<Rightarrow> error option \<times> 's) \<Rightarrow> (byte list \<times> byte list) list \<Rightarrow> 's
     \<Rightarrow> error option \<times> 's"
where
  "visit_all eachFunc [] s = (None, s)"
| "visit_all eachFunc (kv # records) s =
     (case eachFunc (fst kv) (snd kv) s of
        (Some err, s') \<Rightarrow> (Some err, s')
      | (None, s') \<Rightarrow> visit_all eachFunc records s')"

section \<open>Properties of the hash\<close>

lemma CDBHashSum32Update_append:
  "CDBHashSum32Update (a @ b) v = CDBHashSum32Update b (CDBHashSum32Update a v)"
  by (induction a arbitrary: v) simp_all

lemma cdbHash_loop_eq: "cdbHash_loop data v = CDBHashSum32Update data v"
  by (induction data arbitrary: v) simp_all

lemma unat_hash_step:
  "unat ((push_bit 5 v + v) XOR (ucast (b :: byte) :: uint32)) =
     (((unat v * 2 ^ 5) mod 2 ^ 32 + unat v) mod 2 ^ 32) XOR unat b"
proof -
  have "unat (push_bit 5 v :: uint32) = (unat v * 2 ^ 5) mod 2 ^ 32"
    by (simp add: push_bit_eq_mult unat_word_ariths)
  then have "unat (push_bit 5 v + v) = ((unat v * 2 ^ 5) mod 2 ^ 32 + unat v) mod 2 ^ 32"
    by (simp add: unat_word_ariths)
  moreover have "unat b < 2 ^ 32"
    using unsigned_less [of b, where 'a = nat] by simp
  then have "unat (ucast b :: uint32) = unat b"
    by (simp add: unsigned_ucast_eq take_bit_nat_eq_self_iff)
  ultimately show ?thesis
    by (simp add: unsigned_xor_eq)
qed

lemma unat_CDBHashSum32Update:
  "unat (CDBHashSum32Update data v) = hash_spec_from (unat v) (map unat data)"
proof (induction data arbitrary: v)
  case Nil
  show ?case by simp
next
  case (Cons b data)
  show ?case
    by (simp only: CDBHashSum32Update.simps list.map hash_spec_from.simps Cons.IH
        unat_hash_step)
qed

text \<open>
  C8.  The hash is the function the specification describes: started at 5381, each byte
  \<open>b\<close> turns \<open>v\<close> into \<open>((v << 5) + v) XOR b\<close> modulo \<open>2 ^ 32\<close>; the digest object, the
  one-shot function and \<open>CDBHashSum32\<close> agree; the two test vectors have the digests
  776976811 and 3538394712; and feeding the input in two chunks gives the digest of the
  whole input.
\<close>

theorem hash_is_djb_xor:
  "unat (CDBHashSum32 data) = hash_spec (map unat data)
   \<and> cdbHash data = CDBHashSum32 data
   \<and> cdbHash (bytes_of ''foo bar baz'') = 776976811
   \<and> cdbHash (bytes_of ''The quick brown fox jumped over the lazy dog'') = 3538394712
   \<and> CDBHashSum32Update (a @ b) v = CDBHashSum32Update b (CDBHashSum32Update a v)
   \<and> cdbHash_Sum32 (cdbHash_Write (cdbHash_Write newCDBHash a) b) = CDBHashSum32 (a @ b)"
proof -
  have 1: "unat (CDBHashSum32 data) = hash_spec (map unat data)"
    by (simp add: CDBHashSum32_def hash_spec_def unat_CDBHashSum32Update start_def)
  have 2: "cdbHash data = CDBHashSum32 data"
    by (simp add: cdbHash_def CDBHashSum32_def cdbHash_loop_eq)
  have 3: "cdbHash (bytes_of ''foo bar baz'') = 776976811"
    by code_simp
  have 4: "cdbHash (bytes_of ''The quick brown fox jumped over the lazy dog'') = 3538394712"
    by code_simp
  have 5: "cdbHash_Sum32 (cdbHash_Write (cdbHash_Write newCDBHash a) b) = CDBHashSum32 (a @ b)"
    by (simp add: cdbHash_Sum32_def cdbHash_Write_def newCDBHash_def CDBHashSum32_def
        CDBHashSum32Update_append)
  from 1 2 3 4 5 show ?thesis
    by (simp only: CDBHashSum32Update_append simp_thms)
qed

section \<open>The codec and the file operations\<close>

lemma length_PutUint32 [simp]: "length (PutUint32 v) = 4"
  by (simp add: PutUint32_def)

lemma Uint32_PutUint32 [simp]: "Uint32 (PutUint32 v) = v"
proof (rule bit_eqI)
  fix n
  assume "possible_bit TYPE(uint32) n"
  then have n: "n < 32"
    by (simp add: possible_bit_word)
  have eq: "24 \<le> n \<Longrightarrow> 24 + (n - 24) = n" "16 \<le> n \<Longrightarrow> 16 + (n - 16) = n"
    "8 \<le> n \<Longrightarrow> 8 + (n - 8) = n"
    by simp_all
  consider "n < 8" | "8 \<le> n" "n < 16" | "16 \<le> n" "n < 24" | "24 \<le> n"
    by linarith
  then show "bit (Uint32 (PutUint32 v)) n = bit v n"
    using n
    by cases
      (auto simp: Uint32_def PutUint32_def bit_or_iff bit_push_bit_iff bit_ucast_iff
        bit_drop_bit_eq eq)
qed

lemma Uint32_writeTuple [simp]:
  "Uint32 (take 4 (writeTuple a b)) = a" "Uint32 (drop 4 (writeTuple a b)) = b"
  by (simp_all add: writeTuple_def)

lemma length_writeTuple [simp]: "length (writeTuple a b) = 8"
  by (simp add: writeTuple_def)

lemma min_plus_diff: "min a p + (p - a) = (p::nat)"
  by arith

lemma length_write_at:
  "length (write_at f p bs) = (if bs = [] then length f else max (length f) (p + length bs))"
  by (auto simp: write_at_def)

lemma length_write_at_ge: "length f \<le> length (write_at f p bs)"
  by (simp add: length_write_at)

lemma drop_write_at_after:
  "p + length bs \<le> off \<Longrightarrow> drop off (write_at f p bs) = drop off f"
  by (simp add: write_at_def min_plus_diff)

lemma drop_write_at_inside:
  "p \<le> off \<Longrightarrow> off + n \<le> p + length bs \<Longrightarrow>
     take n (drop off (write_at f p bs)) = take n (drop (off - p) bs)"
  by (auto simp: write_at_def min_plus_diff)

text \<open>
  Two writes in a row leave the sink as one write of both slices does, so the sink after
  a \<open>Flush\<close> does not depend on when the buffer was emptied before.
\<close>

lemma write_at_append: "write_at (write_at f p a) (p + length a) b = write_at f p (a @ b)"
  by (auto simp: write_at_def min_plus_diff) (simp add: add_ac)

lemma sink_Write_Nil [simp]: "sink_Write w [] = w"
  by (simp add: sink_Write_def write_at_def)

lemma sink_Write_append: "sink_Write (sink_Write w a) b = sink_Write w (a @ b)"
  by (simp add: sink_Write_def write_at_append add.assoc)


lemma bufio_Write_flushed:
  "bufio_Write wr buf p = (wr', buf') \<Longrightarrow> sink_Write wr' buf' = sink_Write wr (buf @ p)"
proof (induction wr buf p arbitrary: wr' buf' rule: bufio_Write.induct)
  case (1 wr buf p)
  show ?case
  proof (cases "length p > defaultBufSize - length buf")
    case False
    with "1.prems" show ?thesis
      by (simp add: bufio_Write.simps [of wr buf p])
  next
    case True
    show ?thesis
    proof (cases "buf = []")
      case True
      with \<open>length p > defaultBufSize - length buf\<close> "1.prems" show ?thesis
        by (auto simp: bufio_Write.simps [of wr "[]" p])
    next
      case False
      let ?n = "defaultBufSize - length buf"
      from True False "1.prems"
      have "bufio_Write (sink_Write wr (buf @ take ?n p)) [] (drop ?n p) = (wr', buf')"
        by (simp add: bufio_Write.simps [of wr buf p] Let_def)
      from "1.IH" [OF True False refl refl refl this]
      show ?thesis
        by (simp add: sink_Write_append)
    qed
  qed
qed

lemma bufio_Flush_eq: "bufio_Flush wr buf = (sink_Write wr buf, [])"
  by (simp add: bufio_Flush_def)

section \<open>What the loops of the writer compute\<close>

lemma write_entries_ok:
  "off + 8 * int (length es) \<le> maxUint32 \<Longrightarrow>
     \<exists>wr' buf'. write_entries es wr buf off = (None, wr', buf', off + 8 * int (length es))
       \<and> sink_Write wr' buf' = sink_Write wr (buf @ concat (map entry_bytes es))"
proof (induction es arbitrary: wr buf off)
  case Nil
  show ?case by simp
next
  case (Cons e es)
  from Cons.prems have le: "off + 8 \<le> maxUint32" "off + 8 + 8 * int (length es) \<le> maxUint32"
    by simp_all
  obtain wr1 buf1 where w1: "bufio_Write wr buf (writeTuple (e_hash e) (e_offset e)) = (wr1, buf1)"
    by (cases "bufio_Write wr buf (writeTuple (e_hash e) (e_offset e))")
  from Cons.IH [OF le(2), of wr1 buf1] obtain wr' buf' where
    we: "write_entries es wr1 buf1 (off + 8) = (None, wr', buf', off + 8 + 8 * int (length es))"
    and fl: "sink_Write wr' buf' = sink_Write wr1 (buf1 @ concat (map entry_bytes es))"
    by blast
  have "write_entries (e # es) wr buf off = (None, wr', buf', off + 8 * int (length (e # es)))"
    using w1 we le(1) by (simp add: Let_def)
  moreover have "sink_Write wr' buf' = sink_Write wr (buf @ concat (map entry_bytes (e # es)))"
    using fl bufio_Write_flushed [OF w1]
    by (simp add: entry_bytes_def sink_Write_append [symmetric])
  ultimately show ?case by blast
qed

lemma write_entries_err:
  "es \<noteq> [] \<Longrightarrow> maxUint32 < off + 8 * int (length es) \<Longrightarrow>
     fst (write_entries es wr buf off) = Some ErrTooMuchData"
proof (induction es arbitrary: wr buf off)
  case Nil
  then show ?case by simp
next
  case (Cons e es)
  obtain wr1 buf1 where w1: "bufio_Write wr buf (writeTuple (e_hash e) (e_offset e)) = (wr1, buf1)"
    by (cases "bufio_Write wr buf (writeTuple (e_hash e) (e_offset e))")
  show ?case
  proof (cases "maxUint32 < off + 8")
    case True
    then show ?thesis by (simp add: w1 Let_def)
  next
    case False
    with Cons.prems have "es \<noteq> []" "maxUint32 < off + 8 + 8 * int (length es)"
      by auto
    with Cons.IH [of "off + 8" wr1 buf1] False show ?thesis
      by (simp add: w1 Let_def)
  qed
qed

lemma entry_count_same [simp]: "entry_count ents a a = 0"
  by (simp add: entry_count_def)

lemma entry_count_Suc:
  "a \<le> i \<Longrightarrow> entry_count ents a (Suc i) = entry_count ents a i + length (ents ! i)"
  by (simp add: entry_count_def)

lemma entry_count_first:
  "a < b \<Longrightarrow> entry_count ents a b = length (ents ! a) + entry_count ents (Suc a) b"
  by (simp add: entry_count_def upt_conv_Cons)

lemma tables_bytes_first:
  "a < b \<Longrightarrow> tables_bytes ents a b =
     concat (map entry_bytes (ents ! a)) @ tables_bytes ents (Suc a) b"
  by (simp add: tables_bytes_def upt_conv_Cons)

lemma finalize_tables_ok:
  assumes "a \<le> b" and "b \<le> length idx"
    and "off + 8 * int (entry_count ents a b) \<le> maxUint32"
  shows "\<exists>idx' wr' buf'. finalize_tables [a..<b] ents idx wr buf off =
           (None, idx', wr', buf', off + 8 * int (entry_count ents a b))
         \<and> sink_Write wr' buf' = sink_Write wr (buf @ tables_bytes ents a b)
         \<and> length idx' = length idx
         \<and> (\<forall>i. a \<le> i \<and> i < b \<longrightarrow>
               idx' ! i = \<lparr>t_offset = word_of_int (off + 8 * int (entry_count ents a i)),
                           t_length = of_nat (length (ents ! i))\<rparr>)
         \<and> (\<forall>i. i < a \<or> b \<le> i \<longrightarrow> idx' ! i = idx ! i)"
  using assms
proof (induction "b - a" arbitrary: a idx wr buf off)
  case 0
  then show ?case by (auto simp: tables_bytes_def)
next
  case (Suc n)
  then have ab: "a < b" by simp
  let ?es = "ents ! a"
  let ?idx1 = "idx[a := \<lparr>t_offset = word_of_int off, t_length = of_nat (length ?es)\<rparr>]"
  let ?off1 = "off + 8 * int (length ?es)"
  have cnt: "entry_count ents a b = length ?es + entry_count ents (Suc a) b"
    using ab by (rule entry_count_first)
  with Suc.prems have le1: "?off1 \<le> maxUint32"
    and le2: "?off1 + 8 * int (entry_count ents (Suc a) b) \<le> maxUint32"
    by simp_all
  from write_entries_ok [OF le1, of wr buf] obtain wr1 buf1 where
    we: "write_entries ?es wr buf off = (None, wr1, buf1, ?off1)"
    and fl1: "sink_Write wr1 buf1 = sink_Write wr (buf @ concat (map entry_bytes ?es))"
    by blast
  from Suc.hyps(2) have n: "n = b - Suc a" by simp
  have sab: "Suc a \<le> b" using ab by simp
  have blen: "b \<le> length ?idx1" using Suc.prems(2) by simp
  from Suc.hyps(1) [OF n sab blen le2, of wr1 buf1]
  obtain idx' wr' buf' where
    ft: "finalize_tables [Suc a..<b] ents ?idx1 wr1 buf1 ?off1 =
           (None, idx', wr', buf', ?off1 + 8 * int (entry_count ents (Suc a) b))"
    and fl: "sink_Write wr' buf' = sink_Write wr1 (buf1 @ tables_bytes ents (Suc a) b)"
    and len: "length idx' = length ?idx1"
    and inside': "\<forall>i. Suc a \<le> i \<and> i < b \<longrightarrow>
         idx' ! i = \<lparr>t_offset = word_of_int (?off1 + 8 * int (entry_count ents (Suc a) i)),
                     t_length = of_nat (length (ents ! i))\<rparr>"
    and outside': "\<forall>i. i < Suc a \<or> b \<le> i \<longrightarrow> idx' ! i = ?idx1 ! i"
    by blast
  note inside = inside' [rule_format, OF conjI] and outside = outside' [rule_format]
  have "finalize_tables [a..<b] ents idx wr buf off =
          (None, idx', wr', buf', off + 8 * int (entry_count ents a b))"
    using ab we ft by (simp add: upt_conv_Cons cnt Let_def)
  moreover have "sink_Write wr' buf' = sink_Write wr (buf @ tables_bytes ents a b)"
    using fl fl1 ab
    by (simp add: tables_bytes_first sink_Write_append [symmetric])
  moreover have "length idx' = length idx"
    using len by simp
  moreover have "idx' ! i = \<lparr>t_offset = word_of_int (off + 8 * int (entry_count ents a i)),
                           t_length = of_nat (length (ents ! i))\<rparr>"
    if "a \<le> i" "i < b" for i
  proof (cases "i = a")
    case True
    with outside [of a] ab Suc.prems(2) show ?thesis by simp
  next
    case False
    with that have "Suc a \<le> i" by simp
    moreover from this have "entry_count ents a i = length ?es + entry_count ents (Suc a) i"
      by (simp add: entry_count_first)
    ultimately show ?thesis
      using inside [of i] that by simp
  qed
  moreover have "idx' ! i = idx ! i" if "i < a \<or> b \<le> i" for i
    using outside [of i] that ab by auto
  ultimately show ?case by blast
qed

lemma entry_count_mono: "a \<le> i \<Longrightarrow> i \<le> b \<Longrightarrow> entry_count ents a i \<le> entry_count ents a b"
proof (induction b)
  case 0
  then show ?case by simp
next
  case (Suc b)
  then show ?case
    by (cases "i = Suc b") (auto simp: entry_count_Suc)
qed

lemma finalize_tables_err:
  assumes "a \<le> b" and "0 < entry_count ents a b"
    and "maxUint32 < off + 8 * int (entry_count ents a b)"
  shows "fst (finalize_tables [a..<b] ents idx wr buf off) = Some ErrTooMuchData"
  using assms
proof (induction "b - a" arbitrary: a idx wr buf off)
  case 0
  then show ?case by simp
next
  case (Suc n)
  then have ab: "a < b" by simp
  let ?es = "ents ! a"
  let ?idx1 = "idx[a := \<lparr>t_offset = word_of_int off, t_length = of_nat (length ?es)\<rparr>]"
  have cnt: "entry_count ents a b = length ?es + entry_count ents (Suc a) b"
    using ab by (rule entry_count_first)
  show ?case
  proof (cases "off + 8 * int (length ?es) \<le> maxUint32")
    case True
    from write_entries_ok [OF True, of wr buf] obtain wr1 buf1 where
      we: "write_entries ?es wr buf off = (None, wr1, buf1, off + 8 * int (length ?es))"
      by blast
    from True Suc.prems cnt have pos: "0 < entry_count ents (Suc a) b"
      and big: "maxUint32 < off + 8 * int (length ?es) + 8 * int (entry_count ents (Suc a) b)"
      by auto
    from Suc.hyps(2) have n: "n = b - Suc a" by simp
    have "fst (finalize_tables [Suc a..<b] ents ?idx1 wr1 buf1
            (off + 8 * int (length ?es))) = Some ErrTooMuchData"
      using Suc.hyps(1) [OF n _ pos big] ab by simp
    with ab we show ?thesis
      by (simp add: upt_conv_Cons Let_def)
  next
    case False
    then have big: "maxUint32 < off + 8 * int (length ?es)"
      by simp
    show ?thesis
    proof (cases "?es = []")
      case True
      with Suc.prems cnt have pos: "0 < entry_count ents (Suc a) b"
        and big': "maxUint32 < off + 8 * int (entry_count ents (Suc a) b)"
        by auto
      from Suc.hyps(2) have n: "n = b - Suc a" by simp
      have "fst (finalize_tables [Suc a..<b] ents ?idx1 wr buf off) = Some ErrTooMuchData"
        using Suc.hyps(1) [OF n _ pos big'] ab by simp
      with ab True show ?thesis
        by (simp add: upt_conv_Cons Let_def)
    next
      case False
      then have "fst (write_entries ?es wr buf off) = Some ErrTooMuchData"
        using big by (rule write_entries_err)
      with ab show ?thesis
        by (auto simp: upt_conv_Cons Let_def split: prod.splits option.splits)
    qed
  qed
qed

lemma bucket_less: "unat ((h :: uint32) AND 0xff) < 256"
proof -
  have "unat (h AND 0xff) \<le> unat (0xff :: uint32)"
    by (rule word_and_le1 [THEN word_le_nat_alt [THEN iffD1]])
  then show ?thesis by simp
qed

lemma length_record_bytes: "length (record_bytes kv) = 8 + length (fst kv) + length (snd kv)"
  by (simp add: record_bytes_def)

lemma data_bytes_simps [simp]:
  "data_bytes [] = []"
  "data_bytes (kv # records) = record_bytes kv @ data_bytes records"
  by (simp_all add: data_bytes_def)

lemma data_bytes_append: "data_bytes (xs @ ys) = data_bytes xs @ data_bytes ys"
  by (simp add: data_bytes_def)

lemma Put_live:
  assumes "bufferedWriter cdb = Some buf"
  shows "\<exists>wr' buf'. Put cdb key value =
    ((if maxUint32 < bufferedOffset cdb + int (length (record_bytes (key, value)))
      then Some ErrTooMuchData else None),
     cdb\<lparr>entries := (entries cdb)[unat (CDBHashSum32 key AND 0xff) :=
              entries cdb ! unat (CDBHashSum32 key AND 0xff)
                @ [\<lparr>e_hash = CDBHashSum32 key, e_offset = word_of_int (bufferedOffset cdb)\<rparr>]],
          writer := wr',
          bufferedWriter := Some buf',
          bufferedOffset := bufferedOffset cdb + int (length (record_bytes (key, value)))\<rparr>)
    \<and> sink_Write wr' buf' = sink_Write (writer cdb) (buf @ record_bytes (key, value))"
proof -
  let ?t = "writeTuple (of_nat (length key)) (of_nat (length value))"
  obtain wr1 buf1 where 1: "bufio_Write (writer cdb) buf ?t = (wr1, buf1)"
    by (cases "bufio_Write (writer cdb) buf ?t")
  obtain wr2 buf2 where 2: "bufio_Write wr1 buf1 key = (wr2, buf2)"
    by (cases "bufio_Write wr1 buf1 key")
  obtain wr3 buf3 where 3: "bufio_Write wr2 buf2 value = (wr3, buf3)"
    by (cases "bufio_Write wr2 buf2 value")
  have "sink_Write wr3 buf3 = sink_Write (writer cdb) (buf @ record_bytes (key, value))"
    using bufio_Write_flushed [OF 1] bufio_Write_flushed [OF 2] bufio_Write_flushed [OF 3]
    by (simp add: record_bytes_def sink_Write_append [symmetric])
  moreover have "Put cdb key value =
    ((if maxUint32 < bufferedOffset cdb + int (length (record_bytes (key, value)))
      then Some ErrTooMuchData else None),
     cdb\<lparr>entries := (entries cdb)[unat (CDBHashSum32 key AND 0xff) :=
              entries cdb ! unat (CDBHashSum32 key AND 0xff)
                @ [\<lparr>e_hash = CDBHashSum32 key, e_offset = word_of_int (bufferedOffset cdb)\<rparr>]],
          writer := wr3,
          bufferedWriter := Some buf3,
          bufferedOffset := bufferedOffset cdb + int (length (record_bytes (key, value)))\<rparr>)"
    using assms 1 2 3
    by (simp add: Put_def Let_def cdbHash_Sum32_def cdbHash_Write_def newCDBHash_def
        CDBHashSum32_def record_bytes_def)
  ultimately show ?thesis by blast
qed

lemma put_all_ok:
  assumes "bufferedWriter cdb = Some buf" and "length (entries cdb) = 256"
    and "bufferedOffset cdb + int (length (data_bytes records)) \<le> maxUint32"
  shows "\<exists>cdb' buf'. put_all cdb records = (None, cdb')
     \<and> bufferedWriter cdb' = Some buf'
     \<and> sink_Write (writer cdb') buf' = sink_Write (writer cdb) (buf @ data_bytes records)
     \<and> finalizeOnce cdb' = finalizeOnce cdb
     \<and> bufferedOffset cdb' = bufferedOffset cdb + int (length (data_bytes records))
     \<and> length (entries cdb') = 256
     \<and> (\<forall>b<256. entries cdb' ! b = entries cdb ! b @ pending (bufferedOffset cdb) records b)"
  using assms
proof (induction records arbitrary: cdb buf)
  case Nil
  then show ?case by simp
next
  case (Cons kv records)
  obtain key "value" where kv: "kv = (key, value)" by (cases kv)
  let ?t = "unat (CDBHashSum32 key AND 0xff)"
  let ?e = "\<lparr>e_hash = CDBHashSum32 key, e_offset = word_of_int (bufferedOffset cdb)\<rparr>"
  from Cons.prems(3) have le1: "bufferedOffset cdb + int (length (record_bytes kv)) \<le> maxUint32"
    by simp
  from Put_live [OF Cons.prems(1), of key "value"] obtain wr1 buf1 where
    put': "Put cdb key value =
      ((if maxUint32 < bufferedOffset cdb + int (length (record_bytes (key, value)))
        then Some ErrTooMuchData else None),
       cdb\<lparr>entries := (entries cdb)[?t := entries cdb ! ?t @ [?e]],
            writer := wr1, bufferedWriter := Some buf1,
            bufferedOffset := bufferedOffset cdb + int (length (record_bytes (key, value)))\<rparr>)"
    and fl1: "sink_Write wr1 buf1 = sink_Write (writer cdb) (buf @ record_bytes (key, value))"
    by blast
  let ?cdb1 = "cdb\<lparr>entries := (entries cdb)[?t := entries cdb ! ?t @ [?e]],
          writer := wr1, bufferedWriter := Some buf1,
          bufferedOffset := bufferedOffset cdb + int (length (record_bytes (key, value)))\<rparr>"
  have put: "Put cdb key value = (None, ?cdb1)"
    using put' le1 by (simp add: kv)
  have bw1: "bufferedWriter ?cdb1 = Some buf1" by simp
  have len1: "length (entries ?cdb1) = 256" using Cons.prems(2) by simp
  have le2: "bufferedOffset ?cdb1 + int (length (data_bytes records)) \<le> maxUint32"
    using Cons.prems(3) by (simp add: kv)
  from Cons.IH [OF bw1 len1 le2] obtain cdb' buf' where
    pa: "put_all ?cdb1 records = (None, cdb')"
    and bw: "bufferedWriter cdb' = Some buf'"
    and fl: "sink_Write (writer cdb') buf' = sink_Write (writer ?cdb1) (buf1 @ data_bytes records)"
    and f: "finalizeOnce cdb' = finalizeOnce ?cdb1"
    and bo: "bufferedOffset cdb' = bufferedOffset ?cdb1 + int (length (data_bytes records))"
    and len: "length (entries cdb') = 256"
    and ents: "\<forall>b<256. entries cdb' ! b = entries ?cdb1 ! b @ pending (bufferedOffset ?cdb1) records b"
    by blast
  have "put_all cdb (kv # records) = (None, cdb')"
    using put pa by (simp add: kv)
  moreover have "entries cdb' ! b = entries cdb ! b @ pending (bufferedOffset cdb) (kv # records) b"
    if "b < 256" for b
    using ents [rule_format, OF that] that Cons.prems(2)
    by (cases "b = ?t") (simp_all add: kv)
  moreover have "sink_Write (writer cdb') buf' =
      sink_Write (writer cdb) (buf @ data_bytes (kv # records))"
    using fl fl1 by (simp add: kv sink_Write_append [symmetric])
  ultimately show ?case
    using f bw bo len by (simp add: kv)
qed

section \<open>The state of the writer after a run\<close>

lemma length_pending_all [simp]: "length (pending_all records) = 256"
  by (simp add: pending_all_def)

lemma nth_pending_all: "b < 256 \<Longrightarrow> pending_all records ! b = pending (int indexSize) records b"
  by (simp add: pending_all_def)

lemma length_built_index [simp]: "length (built_index records) = 256"
  by (simp add: built_index_def)

lemma sum_length_pending:
  "(\<Sum>b = 0..<256. length (pending off records b)) = length records"
proof (induction records arbitrary: off)
  case Nil
  show ?case by simp
next
  case (Cons kv records)
  let ?t = "unat (CDBHashSum32 (fst kv) AND 0xff)"
  have "(\<Sum>b = 0..<256. length (pending off (kv # records) b)) =
        (\<Sum>b = 0..<256. (if ?t = b then 1 else 0))
        + (\<Sum>b = 0..<256. length (pending (off + int (length (record_bytes kv))) records b))"
  proof -
    have "length (pending off (kv # records) b) =
        (if ?t = b then 1 else 0) + length (pending (off + int (length (record_bytes kv))) records b)"
      for b by simp
    then show ?thesis
      by (simp only: sum.distrib)
  qed
  also have "(\<Sum>b = 0..<256. (if ?t = b then 1 else 0)) = (1::nat)"
    using bucket_less [of "CDBHashSum32 (fst kv)"] by (simp del: One_nat_def)
  finally show ?case
    using Cons.IH by simp
qed

lemma entry_count_pending_all: "entry_count (pending_all records) 0 256 = length records"
proof -
  have "entry_count (pending_all records) 0 256 =
      (\<Sum>b = 0..<256. length (pending_all records ! b))"
    by (simp add: entry_count_def interv_sum_list_conv_sum_set_nat)
  also have "\<dots> = (\<Sum>b = 0..<256. length (pending (int indexSize) records b))"
    by (rule sum.cong) (simp_all add: nth_pending_all)
  finally show ?thesis
    by (simp add: sum_length_pending)
qed

lemma NewWriter_simps [simp]:
  "contents (writer (NewWriter w)) = write_at (contents w) 0 (replicate indexSize 0)"
  "position (writer (NewWriter w)) = indexSize"
  "isReaderAt (writer (NewWriter w)) = isReaderAt w"
  "isCloser (writer (NewWriter w)) = isCloser w"
  "closed (writer (NewWriter w)) = closed w"
  "entries (NewWriter w) = replicate 256 []"
  "finalizeOnce (NewWriter w) = False"
  "bufferedWriter (NewWriter w) = Some []"
  "bufferedOffset (NewWriter w) = int indexSize"
  by (simp_all add: NewWriter_def sink_Write_def sink_Seek_def Let_def)

lemma put_all_NewWriter:
  assumes "int indexSize + int (length (data_bytes records)) \<le> maxUint32"
  shows "\<exists>cdb buf. put_all (NewWriter w) records = (None, cdb)
     \<and> bufferedWriter cdb = Some buf
     \<and> sink_Write (writer cdb) buf = sink_Write (writer (NewWriter w)) (data_bytes records)
     \<and> \<not> finalizeOnce cdb
     \<and> bufferedOffset cdb = int indexSize + int (length (data_bytes records))
     \<and> entries cdb = pending_all records"
proof -
  from put_all_ok [of "NewWriter w" "[]" records] assms
  obtain cdb buf where pa: "put_all (NewWriter w) records = (None, cdb)"
    and bw: "bufferedWriter cdb = Some buf"
    and fl: "sink_Write (writer cdb) buf =
        sink_Write (writer (NewWriter w)) ([] @ data_bytes records)"
    and f: "finalizeOnce cdb = finalizeOnce (NewWriter w)"
    and bo: "bufferedOffset cdb = bufferedOffset (NewWriter w) + int (length (data_bytes records))"
    and len: "length (entries cdb) = 256"
    and ents: "\<forall>b<256. entries cdb ! b =
          entries (NewWriter w) ! b @ pending (bufferedOffset (NewWriter w)) records b"
    by auto
  have "entries cdb = pending_all records"
  proof (rule nth_equalityI)
    show "length (entries cdb) = length (pending_all records)"
      using len by simp
  next
    fix b assume "b < length (entries cdb)"
    with len have "b < 256" by simp
    with ents show "entries cdb ! b = pending_all records ! b"
      by (simp add: nth_pending_all)
  qed
  with pa fl f bw bo show ?thesis by simp
qed

lemma length_encode_index: "length (encode_index idx) = 8 * length idx"
  by (induction idx) (simp_all add: encode_index_def)

lemma finalize_built:
  assumes bw: "bufferedWriter cdb = Some buf"
    and fl: "sink_Write (writer cdb) buf = sink_Write w0 (data_bytes records)"
    and ents: "entries cdb = pending_all records"
    and bo: "bufferedOffset cdb = int indexSize + int (length (data_bytes records))"
    and fits: "int indexSize + int (length (data_bytes records)) + 8 * int (length records)
        \<le> maxUint32"
  shows "finalize cdb =
    (built_index records, None,
     cdb\<lparr>writer := sink_Write (sink_Seek (sink_Write w0 (body_bytes records)) 0)
                    (encode_index (built_index records)),
         bufferedWriter := None,
         bufferedOffset := int indexSize + int (length (data_bytes records))
              + 8 * int (length records)\<rparr>)"
proof -
  let ?off = "int indexSize + int (length (data_bytes records))"
  have le: "?off + 8 * int (entry_count (pending_all records) 0 256) \<le> maxUint32"
    using fits by (simp add: entry_count_pending_all)
  have "(0::nat) \<le> 256" "256 \<le> length zero_index"
    by (simp_all add: zero_index_def)
  from finalize_tables_ok [OF this le, of "writer cdb" buf]
  obtain idx' wr' buf' where
    ft: "finalize_tables [0..<256] (pending_all records) zero_index (writer cdb) buf ?off =
           (None, idx', wr', buf', ?off + 8 * int (entry_count (pending_all records) 0 256))"
    and fl': "sink_Write wr' buf' =
        sink_Write (writer cdb) (buf @ tables_bytes (pending_all records) 0 256)"
    and len: "length idx' = length zero_index"
    and inside: "\<forall>i. 0 \<le> i \<and> i < 256 \<longrightarrow>
         idx' ! i = \<lparr>t_offset = word_of_int (?off + 8 * int (entry_count (pending_all records) 0 i)),
                     t_length = of_nat (length (pending_all records ! i))\<rparr>"
    by blast
  have idx: "idx' = built_index records"
  proof (rule nth_equalityI)
    show "length idx' = length (built_index records)"
      using len by (simp add: zero_index_def)
  next
    fix i assume "i < length idx'"
    with len have "i < 256" by (simp add: zero_index_def)
    with inside show "idx' ! i = built_index records ! i"
      by (simp add: built_index_def)
  qed
  have "sink_Write wr' buf' = sink_Write w0 (body_bytes records)"
    using fl' fl by (simp add: body_bytes_def sink_Write_append [symmetric])
  with ft idx bw ents bo show ?thesis
    by (simp add: finalize_def bufio_Flush_eq entry_count_pending_all)
qed

section \<open>Reading the file the writer built\<close>

lemma Freeze_built:
  assumes "fits records" and "isReaderAt w"
  shows "\<exists>cdb cdb'. put_all (NewWriter w) records = (None, cdb)
     \<and> Freeze cdb = (Inr \<lparr>reader = built_file (contents w) records,
                           index = built_index records\<rparr>, cdb')
     \<and> finalizeOnce cdb' \<and> bufferedWriter cdb' = None
     \<and> contents (writer cdb') = built_file (contents w) records
     \<and> isReaderAt (writer cdb') \<and> isCloser (writer cdb') = isCloser w
     \<and> closed (writer cdb') = closed w"
proof -
  from assms(1) have le: "int indexSize + int (length (data_bytes records)) \<le> maxUint32"
    and fits': "int indexSize + int (length (data_bytes records)) + 8 * int (length records)
        \<le> maxUint32"
    by (simp_all add: fits_def)
  from put_all_NewWriter [OF le, of w] obtain cdb buf where
    pa: "put_all (NewWriter w) records = (None, cdb)"
    and bw: "bufferedWriter cdb = Some buf"
    and fl: "sink_Write (writer cdb) buf = sink_Write (writer (NewWriter w)) (data_bytes records)"
    and f: "\<not> finalizeOnce cdb"
    and bo: "bufferedOffset cdb = int indexSize + int (length (data_bytes records))"
    and ents: "entries cdb = pending_all records"
    by blast
  note fin = finalize_built [OF bw fl ents bo fits']
  show ?thesis
    using pa f assms(2)
    by (simp add: Freeze_def finalizeOnce_Do_def fin built_file_def sink_Write_def
        sink_Seek_def)
qed

lemma Close_built:
  assumes "fits records"
  shows "\<exists>cdb cdb'. put_all (NewWriter w) records = (None, cdb)
     \<and> Close cdb = ((if isCloser w \<and> closed w then Some ErrClosed else None), cdb')
     \<and> finalizeOnce cdb' \<and> bufferedWriter cdb' = None
     \<and> contents (writer cdb') = built_file (contents w) records
     \<and> isReaderAt (writer cdb') = isReaderAt w \<and> isCloser (writer cdb') = isCloser w
     \<and> closed (writer cdb') = (isCloser w \<or> closed w)"
proof -
  from assms(1) have le: "int indexSize + int (length (data_bytes records)) \<le> maxUint32"
    and fits': "int indexSize + int (length (data_bytes records)) + 8 * int (length records)
        \<le> maxUint32"
    by (simp_all add: fits_def)
  from put_all_NewWriter [OF le, of w] obtain cdb buf where
    pa: "put_all (NewWriter w) records = (None, cdb)"
    and bw: "bufferedWriter cdb = Some buf"
    and fl: "sink_Write (writer cdb) buf = sink_Write (writer (NewWriter w)) (data_bytes records)"
    and f: "\<not> finalizeOnce cdb"
    and bo: "bufferedOffset cdb = int indexSize + int (length (data_bytes records))"
    and ents: "entries cdb = pending_all records"
    by blast
  note fin = finalize_built [OF bw fl ents bo fits']
  show ?thesis
    using pa f
    by (auto simp: Close_def finalizeOnce_Do_def fin built_file_def sink_Write_def
        sink_Seek_def sink_Close_def)
qed

lemma length_tables_bytes: "length (tables_bytes ents a b) = 8 * entry_count ents a b"
proof -
  have "length (concat (map entry_bytes es)) = 8 * length es" for es
    by (induction es) (simp_all add: entry_bytes_def)
  then show ?thesis
    by (simp add: tables_bytes_def entry_count_def length_concat comp_def sum_list_const_mult)
qed

lemma length_body_bytes:
  "length (body_bytes records) = length (data_bytes records) + 8 * length records"
  by (simp add: body_bytes_def length_tables_bytes entry_count_pending_all)

lemma fits_body: "fits records \<Longrightarrow> indexSize + length (body_bytes records) < 2 ^ 32"
  by (simp add: fits_def length_body_bytes maxUint32_def)

lemma length_built_file:
  "length (built_file f records) = max (length f) (indexSize + length (body_bytes records))"
proof -
  have hl: "length (encode_index (built_index records)) = indexSize"
    by (simp add: length_encode_index indexSize_def)
  then have "encode_index (built_index records) \<noteq> []"
    by (auto simp: indexSize_def)
  moreover have "replicate indexSize (0::byte) \<noteq> []"
    by (simp add: indexSize_def)
  ultimately show ?thesis
    by (cases "body_bytes records = []") (simp_all add: built_file_def length_write_at hl)
qed

lemma ReadAt_built_body:
  assumes "indexSize \<le> off" and "off + n \<le> indexSize + length (body_bytes records)"
  shows "ReadAt (built_file f records) n off =
           Inr (take n (drop (off - indexSize) (body_bytes records)))"
proof -
  let ?f1 = "write_at (write_at f 0 (replicate indexSize 0)) indexSize (body_bytes records)"
  have hl: "length (encode_index (built_index records)) = indexSize"
    by (simp add: length_encode_index indexSize_def)
  have "length (built_file f records) \<ge> indexSize + length (body_bytes records)"
    by (simp add: length_built_file)
  with assms(2) have fit: "off + n \<le> length (built_file f records)"
    by simp
  have "take n (drop off (built_file f records)) = take n (drop off ?f1)"
    using assms(1) hl by (simp add: built_file_def drop_write_at_after)
  also have "\<dots> = take n (drop (off - indexSize) (body_bytes records))"
    using assms by (rule drop_write_at_inside)
  finally show ?thesis
    using fit by (simp add: ReadAt_def)
qed

lemma ReadAt_built_header:
  "ReadAt (built_file f records) indexSize 0 = Inr (encode_index (built_index records))"
proof -
  have hl: "length (encode_index (built_index records)) = indexSize"
    by (simp add: length_encode_index indexSize_def)
  have "indexSize \<le> length (built_file f records)"
    by (simp add: length_built_file)
  moreover have "take indexSize (drop 0 (built_file f records)) =
      take indexSize (drop (0 - 0) (encode_index (built_index records)))"
    unfolding built_file_def by (rule drop_write_at_inside) (simp_all add: hl)
  ultimately show ?thesis
    by (simp add: ReadAt_def hl indexSize_def)
qed

lemma unat_of_nat32: "n < 2 ^ 32 \<Longrightarrow> unat (of_nat n :: uint32) = n"
  by (simp add: unat_of_nat)

lemma data_bytes_nth:
  assumes "i < length records"
  shows "data_bytes records =
    data_bytes (take i records) @ record_bytes (records ! i) @ data_bytes (drop (Suc i) records)"
proof -
  have "records = take i records @ records ! i # drop (Suc i) records"
    using assms by (rule id_take_nth_drop)
  then have "data_bytes records =
      data_bytes (take i records @ records ! i # drop (Suc i) records)"
    by simp
  then show ?thesis
    by (simp only: data_bytes_append data_bytes_simps)
qed

lemma drop_body_record:
  assumes "i < length records"
  shows "drop (record_offset records i - indexSize) (body_bytes records) =
    record_bytes (records ! i) @ data_bytes (drop (Suc i) records)
      @ tables_bytes (pending_all records) 0 256"
proof -
  have "body_bytes records = data_bytes (take i records) @ (record_bytes (records ! i)
      @ data_bytes (drop (Suc i) records) @ tables_bytes (pending_all records) 0 256)"
    unfolding body_bytes_def using data_bytes_nth [OF assms] by simp
  then show ?thesis
    by (simp add: record_offset_def)
qed

lemma record_end_le:
  assumes "i < length records"
  shows "record_offset records i + length (record_bytes (records ! i))
      \<le> indexSize + length (data_bytes records)"
proof -
  have "length (data_bytes records) = length (data_bytes (take i records))
      + length (record_bytes (records ! i)) + length (data_bytes (drop (Suc i) records))"
    using data_bytes_nth [OF assms] by (metis length_append add.assoc)
  then show ?thesis
    by (simp add: record_offset_def)
qed

lemma record_in_bounds:
  assumes "fits records" and "i < length records"
  shows "record_offset records i + 8 + length (fst (records ! i)) + length (snd (records ! i))
      < 2 ^ 32"
    and "record_offset records i + 8 + length (fst (records ! i)) + length (snd (records ! i))
      \<le> indexSize + length (body_bytes records)"
proof -
  from record_end_le [OF assms(2)]
  have le: "record_offset records i + 8 + length (fst (records ! i)) + length (snd (records ! i))
      \<le> indexSize + length (data_bytes records)"
    by (simp add: length_record_bytes)
  also have "\<dots> \<le> indexSize + length (body_bytes records)"
    by (simp add: length_body_bytes)
  finally show "record_offset records i + 8 + length (fst (records ! i))
      + length (snd (records ! i)) \<le> indexSize + length (body_bytes records)" .
  with fits_body [OF assms(1)]
  show "record_offset records i + 8 + length (fst (records ! i)) + length (snd (records ! i))
      < 2 ^ 32"
    by simp
qed

lemma readTuple_record:
  assumes "fits records" and "i < length records"
  shows "readTuple (built_file f records) (of_nat (record_offset records i)) =
    Inr (of_nat (length (fst (records ! i))), of_nat (length (snd (records ! i))))"
proof -
  note b = record_in_bounds [OF assms]
  from b(1) have u: "unat (of_nat (record_offset records i) :: uint32) = record_offset records i"
    by (simp add: unat_of_nat32)
  have ge: "indexSize \<le> record_offset records i"
    by (simp add: record_offset_def)
  have le: "record_offset records i + 8 \<le> indexSize + length (body_bytes records)"
    using b(2) by simp
  show ?thesis
    by (simp add: readTuple_def u ReadAt_built_body [OF ge le] drop_body_record [OF assms(2)]
        record_bytes_def)
qed

lemma getValueAt_record:
  assumes "fits records" and "i < length records"
  shows "getValueAt (built_file f records) (of_nat (record_offset records i)) key =
    Inr (if key = fst (records ! i) then Some (snd (records ! i)) else None)"
proof -
  let ?k = "fst (records ! i)" and ?v = "snd (records ! i)"
  let ?o = "record_offset records i"
  note b = record_in_bounds [OF assms]
  have uk: "unat (of_nat (length ?k) :: uint32) = length ?k"
    using b(1) by (simp add: unat_of_nat32)
  have "length ?k + length ?v < 2 ^ 32"
    using b(1) by simp
  then have "unat (of_nat (length ?k + length ?v) :: uint32) = length ?k + length ?v"
    by (rule unat_of_nat32)
  then have ukv: "unat (of_nat (length ?k) + of_nat (length ?v) :: uint32) = length ?k + length ?v"
    by simp
  have "?o + 8 < 2 ^ 32"
    using b(1) by simp
  then have "unat (of_nat (?o + 8) :: uint32) = ?o + 8"
    by (rule unat_of_nat32)
  then have uo: "unat (of_nat ?o + 8 :: uint32) = ?o + 8"
    by simp
  have ge: "indexSize \<le> ?o + 8"
    by (simp add: record_offset_def)
  have le: "?o + 8 + (length ?k + length ?v) \<le> indexSize + length (body_bytes records)"
    using b(2) by simp
  have "drop (?o + 8 - indexSize) (body_bytes records) =
      drop 8 (drop (?o - indexSize) (body_bytes records))"
    by (simp add: record_offset_def add.commute)
  then have rd: "ReadAt (built_file f records) (length ?k + length ?v) (?o + 8) = Inr (?k @ ?v)"
    unfolding ReadAt_built_body [OF ge le]
    by (simp add: drop_body_record [OF assms(2)] record_bytes_def)
  have "getValueAt (built_file f records) (of_nat ?o) key =
      (if length ?k \<noteq> length key then Inr None
       else if length (?k @ ?v) < length ?k then Inl PanicSliceBounds
       else if take (length ?k) (?k @ ?v) \<noteq> key then Inr None
       else Inr (Some (drop (length ?k) (?k @ ?v))))"
    unfolding getValueAt_def readTuple_record [OF assms] sum.case prod.case uk ukv uo rd ..
  then show ?thesis
    by auto
qed

lemma pending_set:
  "e \<in> set (pending off records b) \<Longrightarrow>
     \<exists>i<length records. unat (CDBHashSum32 (fst (records ! i)) AND 0xff) = b
       \<and> e = \<lparr>e_hash = CDBHashSum32 (fst (records ! i)),
               e_offset = word_of_int (off + int (length (data_bytes (take i records))))\<rparr>"
proof (induction records arbitrary: off)
  case Nil
  then show ?case by simp
next
  case (Cons kv records)
  show ?case
  proof (cases "e \<in> set (pending (off + int (length (record_bytes kv))) records b)")
    case True
    from Cons.IH [OF True] obtain i where "i < length records"
      "unat (CDBHashSum32 (fst (records ! i)) AND 0xff) = b"
      "e = \<lparr>e_hash = CDBHashSum32 (fst (records ! i)),
            e_offset = word_of_int (off + int (length (record_bytes kv))
               + int (length (data_bytes (take i records))))\<rparr>"
      by blast
    then have "Suc i < length (kv # records)
      \<and> unat (CDBHashSum32 (fst ((kv # records) ! Suc i)) AND 0xff) = b
      \<and> e = \<lparr>e_hash = CDBHashSum32 (fst ((kv # records) ! Suc i)),
            e_offset = word_of_int (off + int (length (data_bytes (take (Suc i) (kv # records)))))\<rparr>"
      by (simp add: add.assoc)
    then show ?thesis by blast
  next
    case False
    with Cons.prems have "0 < length (kv # records)
      \<and> unat (CDBHashSum32 (fst ((kv # records) ! 0)) AND 0xff) = b
      \<and> e = \<lparr>e_hash = CDBHashSum32 (fst ((kv # records) ! 0)),
            e_offset = word_of_int (off + int (length (data_bytes (take 0 (kv # records)))))\<rparr>"
      by (auto split: if_splits)
    then show ?thesis by blast
  qed
qed

lemma pending_mem:
  "i < length records \<Longrightarrow>
     \<lparr>e_hash = CDBHashSum32 (fst (records ! i)),
      e_offset = word_of_int (off + int (length (data_bytes (take i records))))\<rparr>
     \<in> set (pending off records (unat (CDBHashSum32 (fst (records ! i)) AND 0xff)))"
proof (induction records arbitrary: i off)
  case Nil
  then show ?case by simp
next
  case (Cons kv records)
  show ?case
  proof (cases i)
    case 0
    then show ?thesis by simp
  next
    case (Suc j)
    with Cons.prems have "j < length records" by simp
    from Cons.IH [OF this, of "off + int (length (record_bytes kv))"] Suc show ?thesis
      by (simp add: add.assoc)
  qed
qed

lemma word_record_offset:
  "word_of_int (int indexSize + int (length (data_bytes (take i records)))) =
     (of_nat (record_offset records i) :: uint32)"
  by (simp add: record_offset_def)

lemma tables_bytes_split:
  assumes "a \<le> b" and "b \<le> c"
  shows "tables_bytes ents a c = tables_bytes ents a b @ tables_bytes ents b c"
proof -
  from assms(2) obtain k where c: "c = b + k"
    by (auto simp: le_iff_add)
  have "[a..<b + k] = [a..<b] @ [b..<b + k]"
    using assms(1) by (rule upt_add_eq_append)
  then show ?thesis
    unfolding c tables_bytes_def by simp
qed

lemma take_drop_entries:
  "j < length es \<Longrightarrow> take 8 (drop (8 * j) (concat (map entry_bytes es) @ rest)) = entry_bytes (es ! j)"
proof (induction es arbitrary: j)
  case Nil
  then show ?case by simp
next
  case (Cons e es)
  show ?case
  proof (cases j)
    case 0
    then show ?thesis by (simp add: entry_bytes_def)
  next
    case (Suc k)
    with Cons.prems have "k < length es" by simp
    from Cons.IH [OF this] Suc show ?thesis
      by (simp add: entry_bytes_def)
  qed
qed

lemma slot_end_le:
  assumes "b < 256" and "j < length (pending_all records ! b)"
  shows "entry_count (pending_all records) 0 b + j + 1 \<le> length records"
proof -
  have "entry_count (pending_all records) 0 b + j + 1 \<le> entry_count (pending_all records) 0 (Suc b)"
    using assms(2) by (simp add: entry_count_Suc)
  also have "\<dots> \<le> entry_count (pending_all records) 0 256"
    using assms(1) by (intro entry_count_mono) simp_all
  finally show ?thesis
    by (simp add: entry_count_pending_all)
qed

lemma ReadAt_slot:
  assumes "b < 256" and "j < length (pending_all records ! b)"
  shows "ReadAt (built_file f records) 8
           (indexSize + length (data_bytes records)
              + 8 * entry_count (pending_all records) 0 b + 8 * j) =
         Inr (entry_bytes (pending_all records ! b ! j))"
proof -
  let ?P = "pending_all records"
  let ?off = "indexSize + length (data_bytes records) + 8 * entry_count ?P 0 b + 8 * j"
  have ge: "indexSize \<le> ?off" by simp
  have le: "?off + 8 \<le> indexSize + length (body_bytes records)"
    using slot_end_le [OF assms] by (simp add: length_body_bytes)
  have "tables_bytes ?P 0 256 = tables_bytes ?P 0 b @ tables_bytes ?P b 256"
    using assms(1) by (intro tables_bytes_split) simp_all
  also have "tables_bytes ?P b 256 =
      concat (map entry_bytes (?P ! b)) @ tables_bytes ?P (Suc b) 256"
    using assms(1) by (rule tables_bytes_first)
  finally have "drop (?off - indexSize) (body_bytes records) =
      drop (8 * j) (concat (map entry_bytes (?P ! b)) @ tables_bytes ?P (Suc b) 256)"
    by (simp add: body_bytes_def length_tables_bytes)
  then show ?thesis
    unfolding ReadAt_built_body [OF ge le] using take_drop_entries [OF assms(2)] by simp
qed

lemma unat_t_length:
  assumes "fits records" and "b < 256"
  shows "unat (t_length (built_index records ! b)) = length (pending_all records ! b)"
proof -
  have "length (pending_all records ! b) \<le> entry_count (pending_all records) 0 (Suc b)"
    by (simp add: entry_count_Suc)
  also have "\<dots> \<le> entry_count (pending_all records) 0 256"
    using assms(2) by (intro entry_count_mono) simp_all
  finally have "length (pending_all records ! b) \<le> length records"
    by (simp add: entry_count_pending_all)
  with assms(1) have "length (pending_all records ! b) < 2 ^ 32"
    by (simp add: fits_def maxUint32_def)
  then show ?thesis
    using assms(2) by (simp add: built_index_def unat_of_nat32)
qed

lemma readTuple_slot:
  fixes slot :: uint32
  assumes "fits records" and "b < 256" and "unat slot < length (pending_all records ! b)"
  shows "readTuple (built_file f records) (t_offset (built_index records ! b) + 8 * slot) =
    Inr (e_hash (pending_all records ! b ! unat slot),
         e_offset (pending_all records ! b ! unat slot))"
proof -
  let ?P = "pending_all records"
  let ?off = "indexSize + length (data_bytes records) + 8 * entry_count ?P 0 b + 8 * unat slot"
  have "?off + 8 \<le> indexSize + length (body_bytes records)"
    using slot_end_le [OF assms(2,3)] by (simp add: length_body_bytes)
  with fits_body [OF assms(1)] have "?off < 2 ^ 32"
    by simp
  then have "unat (of_nat ?off :: uint32) = ?off"
    by (rule unat_of_nat32)
  moreover have "t_offset (built_index records ! b) + 8 * slot = of_nat ?off"
    using assms(2) by (simp add: built_index_def)
  ultimately have u: "unat (t_offset (built_index records ! b) + 8 * slot) = ?off"
    by simp
  show ?thesis
    unfolding readTuple_def u ReadAt_slot [OF assms(2,3)]
    by (simp add: entry_bytes_def)
qed

section \<open>The probe loop reads the table in cyclic order\<close>

lemma probe_left_next:
  fixes slot :: uint32
  assumes "unat slot < unat (t_length t)"
  shows "(slot + 1) mod t_length t = startingSlot h t \<Longrightarrow> probe_left t h slot = 0"
    and "(slot + 1) mod t_length t \<noteq> startingSlot h t \<Longrightarrow>
           probe_left t h slot = Suc (probe_left t h ((slot + 1) mod t_length t))"
proof -
  let ?n = "unat (t_length t)" and ?s = "unat (startingSlot h t)"
  let ?slot' = "(slot + 1) mod t_length t"
  from assms have len: "t_length t \<noteq> 0"
    by (auto simp: unat_gt_0 [symmetric] simp del: unat_gt_0)
  have s_lt: "?s < ?n"
    unfolding startingSlot_def using len by (rule unat_mod_less)
  have c': "unat ?slot' = (if unat slot + 1 = ?n then 0 else unat slot + 1)"
    using assms by (rule unat_next_slot)
  {
    assume "?slot' = startingSlot h t"
    then have "unat ?slot' = ?s" by simp
    with c' assms s_lt show "probe_left t h slot = 0"
      by (auto simp: probe_left_def Let_def split: if_splits)
  next
    assume "?slot' \<noteq> startingSlot h t"
    then have "unat ?slot' \<noteq> ?s" by (simp add: word_unat_eq_iff)
    with c' assms s_lt show "probe_left t h slot = Suc (probe_left t h ?slot')"
      by (auto simp: probe_left_def Let_def split: if_splits)
  }
qed

lemma probe_scan:
  fixes slot :: uint32
  assumes rd: "\<And>slot. unat slot < length es \<Longrightarrow>
      readTuple r (t_offset t + 8 * slot) = Inr (e_hash (es ! unat slot), e_offset (es ! unat slot))"
    and n: "unat (t_length t) = length es"
    and slot: "unat slot < length es"
  shows "probe r t h key slot =
    scan_entries r h key
      (map (\<lambda>d. es ! ((unat slot + d) mod length es)) [0..<Suc (probe_left t h slot)])"
  using slot
proof (induction "probe_left t h slot" arbitrary: slot)
  case 0
  let ?slot' = "(slot + 1) mod t_length t"
  from 0 n have lt: "unat slot < unat (t_length t)" by simp
  then have len: "t_length t \<noteq> 0"
    by (auto simp: unat_gt_0 [symmetric] simp del: unat_gt_0)
  have "?slot' = startingSlot h t"
    using probe_left_next(2) [OF lt, of h] 0(1) by auto
  then show ?case
    using 0(1) [symmetric] 0(2) len
    by (subst probe.simps) (simp add: rd [OF 0(2)] Let_def split: sum.splits option.splits)
next
  case (Suc m)
  let ?slot' = "(slot + 1) mod t_length t"
  from Suc n have lt: "unat slot < unat (t_length t)" by simp
  then have len: "t_length t \<noteq> 0"
    by (auto simp: unat_gt_0 [symmetric] simp del: unat_gt_0)
  have ne: "?slot' \<noteq> startingSlot h t"
    using probe_left_next(1) [OF lt, of h] Suc(2) by auto
  then have pl: "probe_left t h slot = Suc (probe_left t h ?slot')"
    using probe_left_next(2) [OF lt] by simp
  with Suc(2) have m: "m = probe_left t h ?slot'" by simp
  have lt': "unat ?slot' < length es"
    using unat_mod_less [OF len, of "slot + 1"] n by simp
  have c': "unat ?slot' = (unat slot + 1) mod length es"
    using unat_next_slot [OF lt] n lt by auto
  have shift: "(unat ?slot' + d) mod length es = (unat slot + Suc d) mod length es" for d
    unfolding c' by (simp add: mod_add_left_eq)
  have IH: "probe r t h key ?slot' =
      scan_entries r h key
        (map (\<lambda>d. es ! ((unat slot + Suc d) mod length es)) [0..<Suc (probe_left t h ?slot')])"
    using Suc(1) [OF m lt'] by (simp only: shift)
  have list: "map (\<lambda>d. es ! ((unat slot + d) mod length es)) [0..<Suc (probe_left t h slot)] =
      es ! unat slot # map (\<lambda>d. es ! ((unat slot + Suc d) mod length es))
        [0..<Suc (probe_left t h ?slot')]"
    unfolding pl using Suc(3)
    by (simp only: upt_conv_Cons [of 0] zero_less_Suc list.map map_Suc_upt [symmetric] map_map
        comp_def) simp
  show ?case
    unfolding list
    using ne len
    by (subst probe.simps) (simp add: rd [OF Suc(3)] Let_def IH split: sum.splits option.splits)
qed

lemma probe_left_start:
  assumes "t_length t \<noteq> 0"
  shows "probe_left t h (startingSlot h t) = unat (t_length t) - 1"
proof -
  have "unat (startingSlot h t) < unat (t_length t)"
    unfolding startingSlot_def using assms by (rule unat_mod_less)
  then show ?thesis
    by (simp add: probe_left_def Let_def)
qed

lemma rotate_conv_map:
  assumes "s < length es"
  shows "map (\<lambda>d. es ! ((s + d) mod length es)) [0..<length es] = rotate s es"
  by (rule nth_equalityI) (simp_all add: nth_rotate)

lemma probe_from_start:
  assumes rd: "\<And>slot. unat slot < length es \<Longrightarrow>
      readTuple r (t_offset t + 8 * slot) = Inr (e_hash (es ! unat slot), e_offset (es ! unat slot))"
    and n: "unat (t_length t) = length es"
    and ne: "es \<noteq> []"
  shows "probe r t h key (startingSlot h t) =
    scan_entries r h key (rotate (unat (drop_bit 8 h) mod length es) es)"
proof -
  from n ne have len: "t_length t \<noteq> 0"
    by auto
  have s: "unat (startingSlot h t) = unat (drop_bit 8 h) mod length es"
    by (simp add: startingSlot_def unat_mod n)
  have lt: "unat (startingSlot h t) < length es"
    using unat_mod_less [OF len, of "drop_bit 8 h"] n by (simp add: startingSlot_def)
  have "Suc (probe_left t h (startingSlot h t)) = length es"
    using probe_left_start [OF len, of h] n ne by simp
  with probe_scan [of es r t "startingSlot h t" h key, OF rd n lt]
  have "probe r t h key (startingSlot h t) =
      scan_entries r h key
        (map (\<lambda>d. es ! ((unat (startingSlot h t) + d) mod length es)) [0..<length es])"
    by simp
  then show ?thesis
    using rotate_conv_map [OF lt] by (simp add: s)
qed

lemma Get_built:
  assumes "fits records"
  shows "Get \<lparr>reader = built_file f records, index = built_index records\<rparr> key =
    (let h = CDBHashSum32 key; es = pending_all records ! unat (h AND 0xff) in
     if es = [] then Inr None
     else scan_entries (built_file f records) h key
            (rotate (unat (drop_bit 8 h) mod length es) es))"
proof -
  let ?h = "CDBHashSum32 key"
  let ?b = "unat (?h AND 0xff)"
  let ?t = "built_index records ! ?b"
  let ?es = "pending_all records ! ?b"
  have b: "?b < 256" by (rule bucket_less)
  have n: "unat (t_length ?t) = length ?es"
    using assms b by (rule unat_t_length)
  have h: "cdbHash_Sum32 (cdbHash_Write newCDBHash key) = ?h"
    by (simp add: cdbHash_Sum32_def cdbHash_Write_def newCDBHash_def CDBHashSum32_def)
  show ?thesis
  proof (cases "?es = []")
    case True
    with n have "t_length ?t = 0"
      by (simp add: unat_eq_0)
    with True show ?thesis
      by (simp add: Get_def h Let_def)
  next
    case False
    with n have "t_length ?t \<noteq> 0"
      by auto
    moreover have "probe (built_file f records) ?t ?h key (startingSlot ?h ?t) =
        scan_entries (built_file f records) ?h key
          (rotate (unat (drop_bit 8 ?h) mod length ?es) ?es)"
      using readTuple_slot [OF assms b] n False by (rule probe_from_start)
    ultimately show ?thesis
      using False by (simp add: Get_def h Let_def)
  qed
qed

lemma scan_entries_none:
  assumes "\<And>e. e \<in> set l \<Longrightarrow> e_hash e = h \<Longrightarrow> e_hash e \<noteq> 0 \<Longrightarrow>
      getValueAt r (e_offset e) key = Inr None"
  shows "scan_entries r h key l = Inr None"
  using assms by (induction l) auto

lemma scan_entries_found:
  assumes "\<And>e. e \<in> set l \<Longrightarrow> e_hash e \<noteq> 0"
    and "\<And>e. e \<in> set l \<Longrightarrow> e_hash e = h \<Longrightarrow>
      getValueAt r (e_offset e) key = Inr (Some v) \<or> getValueAt r (e_offset e) key = Inr None"
    and "\<exists>e\<in>set l. e_hash e = h \<and> getValueAt r (e_offset e) key = Inr (Some v)"
  shows "scan_entries r h key l = Inr (Some v)"
  using assms
proof (induction l)
  case Nil
  then show ?case by simp
next
  case (Cons e l)
  show ?case
  proof (cases "e_hash e = h \<and> getValueAt r (e_offset e) key = Inr (Some v)")
    case True
    with Cons.prems(1) [of e] show ?thesis by simp
  next
    case False
    with Cons.prems(3) have ex: "\<exists>e\<in>set l. e_hash e = h \<and> getValueAt r (e_offset e) key = Inr (Some v)"
      by auto
    have "scan_entries r h key l = Inr (Some v)"
      using Cons.prems(1,2) ex by (intro Cons.IH) auto
    with False Cons.prems(1) [of e] Cons.prems(2) [of e] show ?thesis
      by auto
  qed
qed

lemma getValueAt_entry:
  assumes "fits records" and "b < 256" and "e \<in> set (pending_all records ! b)"
  shows "\<exists>i<length records. e_hash e = CDBHashSum32 (fst (records ! i))
     \<and> unat (CDBHashSum32 (fst (records ! i)) AND 0xff) = b
     \<and> (\<forall>key. getValueAt (built_file f records) (e_offset e) key =
            Inr (if key = fst (records ! i) then Some (snd (records ! i)) else None))"
proof -
  from assms(2,3) have "e \<in> set (pending (int indexSize) records b)"
    by (simp add: nth_pending_all)
  from pending_set [OF this] obtain i where i: "i < length records"
    and b: "unat (CDBHashSum32 (fst (records ! i)) AND 0xff) = b"
    and e: "e = \<lparr>e_hash = CDBHashSum32 (fst (records ! i)),
               e_offset = word_of_int (int indexSize + int (length (data_bytes (take i records))))\<rparr>"
    by blast
  have "e_offset e = of_nat (record_offset records i)"
    by (simp add: e record_offset_def)
  with getValueAt_record [OF assms(1) i, of f] have
    "\<forall>key. getValueAt (built_file f records) (e_offset e) key =
            Inr (if key = fst (records ! i) then Some (snd (records ! i)) else None)"
    by simp
  with i b e show ?thesis
    by auto
qed

lemma entry_of_record:
  assumes "i < length records"
  shows "\<exists>e\<in>set (pending_all records ! unat (CDBHashSum32 (fst (records ! i)) AND 0xff)).
     e_hash e = CDBHashSum32 (fst (records ! i))
     \<and> e_offset e = of_nat (record_offset records i)"
proof -
  let ?e = "\<lparr>e_hash = CDBHashSum32 (fst (records ! i)),
      e_offset = word_of_int (int indexSize + int (length (data_bytes (take i records))))\<rparr>"
  have "?e \<in> set (pending_all records ! unat (CDBHashSum32 (fst (records ! i)) AND 0xff))"
    using pending_mem [OF assms, of "int indexSize"] bucket_less [of "CDBHashSum32 (fst (records ! i))"]
    by (simp add: nth_pending_all)
  moreover have "e_offset ?e = of_nat (record_offset records i)"
    by (simp add: record_offset_def)
  ultimately show ?thesis
    by (intro bexI [of _ ?e]) simp_all
qed

section \<open>What the two ways of building a store return\<close>

lemma put_all_err:
  assumes "bufferedWriter cdb = Some buf" and "bufferedOffset cdb \<le> maxUint32"
    and "maxUint32 < bufferedOffset cdb + int (length (data_bytes records))"
  shows "fst (put_all cdb records) = Some ErrTooMuchData"
  using assms
proof (induction records arbitrary: cdb buf)
  case Nil
  then show ?case by simp
next
  case (Cons kv records)
  obtain key "value" where kv: "kv = (key, value)" by (cases kv)
  from Put_live [OF Cons.prems(1), of key "value"] obtain wr1 buf1 where
    put: "Put cdb key value =
      ((if maxUint32 < bufferedOffset cdb + int (length (record_bytes (key, value)))
        then Some ErrTooMuchData else None),
       cdb\<lparr>entries := (entries cdb)[unat (CDBHashSum32 key AND 0xff) :=
              entries cdb ! unat (CDBHashSum32 key AND 0xff)
                @ [\<lparr>e_hash = CDBHashSum32 key, e_offset = word_of_int (bufferedOffset cdb)\<rparr>]],
            writer := wr1, bufferedWriter := Some buf1,
            bufferedOffset := bufferedOffset cdb + int (length (record_bytes (key, value)))\<rparr>)"
    by blast
  show ?case
  proof (cases "maxUint32 < bufferedOffset cdb + int (length (record_bytes kv))")
    case True
    then show ?thesis
      using put by (simp add: kv)
  next
    case False
    let ?cdb1 = "snd (Put cdb key value)"
    have bw: "bufferedWriter ?cdb1 = Some buf1"
      and bo: "bufferedOffset ?cdb1 = bufferedOffset cdb + int (length (record_bytes (key, value)))"
      using put by simp_all
    have le: "bufferedOffset ?cdb1 \<le> maxUint32"
      using False by (simp add: bo kv)
    have gt: "maxUint32 < bufferedOffset ?cdb1 + int (length (data_bytes records))"
      using Cons.prems(3) by (simp add: bo kv)
    have "fst (put_all ?cdb1 records) = Some ErrTooMuchData"
      using bw le gt by (rule Cons.IH)
    moreover have "fst (Put cdb key value) = None"
      using put False by (simp add: kv)
    ultimately show ?thesis
      by (cases "Put cdb key value") (simp add: kv)
  qed
qed

lemma take_drop_encode_index:
  "i < length idx \<Longrightarrow>
     take 4 (drop (i * 8) (encode_index idx)) = PutUint32 (t_offset (idx ! i))
     \<and> take 4 (drop (i * 8 + 4) (encode_index idx)) = PutUint32 (t_length (idx ! i))"
proof (induction idx arbitrary: i)
  case Nil
  then show ?case by simp
next
  case (Cons t idx)
  show ?case
  proof (cases i)
    case 0
    then show ?thesis by (simp add: encode_index_def)
  next
    case (Suc j)
    with Cons.prems have "j < length idx" by simp
    from Cons.IH [OF this] Suc show ?thesis
      by (simp add: encode_index_def add.commute)
  qed
qed

lemma readIndex_encode_index:
  assumes "ReadAt r indexSize 0 = Inr (encode_index idx)" and "length idx = 256"
  shows "readIndex r = Inr idx"
proof -
  have "map (\<lambda>i. \<lparr>t_offset = Uint32 (take 4 (drop (i * 8) (encode_index idx))),
                  t_length = Uint32 (take 4 (drop (i * 8 + 4) (encode_index idx)))\<rparr>) [0..<256]
      = idx"
    by (rule nth_equalityI) (simp_all add: assms(2) take_drop_encode_index)
  then show ?thesis
    by (simp add: readIndex_def assms(1) Let_def)
qed

lemma New_built: "New (built_file f records) = Inr (built_CDB f records)"
  using readIndex_encode_index [OF ReadAt_built_header [of f records]]
  by (simp add: New_def built_CDB_def)

lemma finalize_too_much:
  assumes pa: "put_all (NewWriter w) records = (None, cdb)"
    and le: "int indexSize + int (length (data_bytes records)) \<le> maxUint32"
    and nofit: "\<not> fits records"
  shows "\<not> finalizeOnce cdb" and "fst (snd (finalize cdb)) = Some ErrTooMuchData"
proof -
  from put_all_NewWriter [OF le, of w] pa obtain buf where
    f: "\<not> finalizeOnce cdb"
    and bw: "bufferedWriter cdb = Some buf"
    and bo: "bufferedOffset cdb = int indexSize + int (length (data_bytes records))"
    and ents: "entries cdb = pending_all records"
    by auto
  from f show "\<not> finalizeOnce cdb" .
  from nofit le have pos: "0 < entry_count (entries cdb) 0 256"
    and big: "maxUint32 < bufferedOffset cdb + 8 * int (entry_count (entries cdb) 0 256)"
    by (auto simp: fits_def ents bo entry_count_pending_all)
  have "fst (finalize_tables [0..<256] (entries cdb) zero_index (writer cdb) buf
      (bufferedOffset cdb)) = Some ErrTooMuchData"
    using _ pos big by (rule finalize_tables_err) simp
  then show "fst (snd (finalize cdb)) = Some ErrTooMuchData"
    by (auto simp: finalize_def bw split: prod.splits option.splits)
qed

lemma build_Freeze_eq:
  "build_Freeze w records =
     (if \<not> fits records then Inl ErrTooMuchData
      else if isReaderAt w then Inr (built_CDB (contents w) records)
      else Inl ErrInvalid)"
proof (cases "int indexSize + int (length (data_bytes records)) \<le> maxUint32")
  case False
  then have "fst (put_all (NewWriter w) records) = Some ErrTooMuchData"
    by (intro put_all_err [where buf = "[]"]) (simp_all add: indexSize_def maxUint32_def)
  moreover from False have "\<not> fits records"
    by (simp add: fits_def)
  ultimately show ?thesis
    by (cases "put_all (NewWriter w) records") (simp add: build_Freeze_def)
next
  case True
  from put_all_NewWriter [OF True, of w] obtain cdb buf where
    pa: "put_all (NewWriter w) records = (None, cdb)"
    and bw: "bufferedWriter cdb = Some buf"
    and fl: "sink_Write (writer cdb) buf = sink_Write (writer (NewWriter w)) (data_bytes records)"
    and f: "\<not> finalizeOnce cdb"
    and bo: "bufferedOffset cdb = int indexSize + int (length (data_bytes records))"
    and ents: "entries cdb = pending_all records"
    by blast
  show ?thesis
  proof (cases "fits records")
    case fits: True
    then have fits': "int indexSize + int (length (data_bytes records)) + 8 * int (length records)
        \<le> maxUint32"
      by (simp add: fits_def)
    note fin = finalize_built [OF bw fl ents bo fits']
    show ?thesis
      using pa f fits
      by (simp add: build_Freeze_def Freeze_def finalizeOnce_Do_def fin built_file_def
          built_CDB_def sink_Write_def sink_Seek_def)
  next
    case False
    from finalize_too_much [OF pa True False] show ?thesis
      using pa False
      by (auto simp: build_Freeze_def Freeze_def finalizeOnce_Do_def
          split: prod.splits option.splits)
  qed
qed

lemma build_Close_eq:
  "build_Close w records =
     (if \<not> fits records then Inl ErrTooMuchData
      else if isCloser w \<and> closed w then Inl ErrClosed
      else Inr (built_CDB (contents w) records))"
proof (cases "int indexSize + int (length (data_bytes records)) \<le> maxUint32")
  case False
  then have "fst (put_all (NewWriter w) records) = Some ErrTooMuchData"
    by (intro put_all_err [where buf = "[]"]) (simp_all add: indexSize_def maxUint32_def)
  moreover from False have "\<not> fits records"
    by (simp add: fits_def)
  ultimately show ?thesis
    by (cases "put_all (NewWriter w) records") (simp add: build_Close_def)
next
  case True
  show ?thesis
  proof (cases "fits records")
    case fits: True
    from Close_built [OF fits, of w] obtain cdb cdb' where
      "put_all (NewWriter w) records = (None, cdb)"
      "Close cdb = ((if isCloser w \<and> closed w then Some ErrClosed else None), cdb')"
      "contents (writer cdb') = built_file (contents w) records"
      by blast
    with fits show ?thesis
      by (simp add: build_Close_def New_built)
  next
    case False
    from put_all_NewWriter [OF True, of w] obtain cdb where
      pa: "put_all (NewWriter w) records = (None, cdb)"
      by blast
    from finalize_too_much [OF pa True False] show ?thesis
      using pa False
      by (auto simp: build_Close_def Close_def finalizeOnce_Do_def
          split: prod.splits option.splits)
  qed
qed

section \<open>Lookups in a built store\<close>

lemma scan_entries_Some:
  "scan_entries r h key l = Inr (Some v) \<Longrightarrow>
     \<exists>e\<in>set l. e_hash e = h \<and> getValueAt r (e_offset e) key = Inr (Some v)"
  by (induction l) (auto split: if_splits sum.splits option.splits)

lemma scan_entries_none_iff:
  assumes "\<And>e. e \<in> set l \<Longrightarrow> \<exists>x. getValueAt r (e_offset e) key = Inr x"
  shows "scan_entries r h key l = Inr None \<longleftrightarrow>
    (\<exists>pre post. l = pre @ post
       \<and> (\<forall>e\<in>set pre. e_hash e \<noteq> 0
             \<and> (e_hash e = h \<longrightarrow> getValueAt r (e_offset e) key = Inr None))
       \<and> (post = [] \<or> e_hash (hd post) = 0))"
  using assms
proof (induction l)
  case Nil
  show ?case by simp
next
  case (Cons e l)
  have IH: "scan_entries r h key l = Inr None \<longleftrightarrow>
    (\<exists>pre post. l = pre @ post
       \<and> (\<forall>e\<in>set pre. e_hash e \<noteq> 0
             \<and> (e_hash e = h \<longrightarrow> getValueAt r (e_offset e) key = Inr None))
       \<and> (post = [] \<or> e_hash (hd post) = 0))"
    using Cons.prems by (intro Cons.IH) simp
  from Cons.prems [of e] obtain x where gv: "getValueAt r (e_offset e) key = Inr x"
    by auto
  show ?case
  proof (cases "e_hash e = 0")
    case True
    then have "e # l = [] @ (e # l) \<and> (\<forall>e\<in>set []. e_hash e \<noteq> 0
             \<and> (e_hash e = h \<longrightarrow> getValueAt r (e_offset e) key = Inr None))
       \<and> (e # l = [] \<or> e_hash (hd (e # l)) = 0)"
      by simp
    then have "\<exists>pre post. e # l = pre @ post
       \<and> (\<forall>e\<in>set pre. e_hash e \<noteq> 0
             \<and> (e_hash e = h \<longrightarrow> getValueAt r (e_offset e) key = Inr None))
       \<and> (post = [] \<or> e_hash (hd post) = 0)"
      by blast
    with True show ?thesis by simp
  next
    case nz: False
    show ?thesis
    proof (cases "e_hash e = h \<and> x \<noteq> None")
      case True
      then have "scan_entries r h key (e # l) \<noteq> Inr None"
        using nz gv by auto
      moreover have "\<not> (\<exists>pre post. e # l = pre @ post
       \<and> (\<forall>e\<in>set pre. e_hash e \<noteq> 0
             \<and> (e_hash e = h \<longrightarrow> getValueAt r (e_offset e) key = Inr None))
       \<and> (post = [] \<or> e_hash (hd post) = 0))"
      proof
        assume "\<exists>pre post. e # l = pre @ post
          \<and> (\<forall>e\<in>set pre. e_hash e \<noteq> 0
             \<and> (e_hash e = h \<longrightarrow> getValueAt r (e_offset e) key = Inr None))
          \<and> (post = [] \<or> e_hash (hd post) = 0)"
        then obtain pre post where split: "e # l = pre @ post"
          and pre: "\<forall>e\<in>set pre. e_hash e \<noteq> 0
             \<and> (e_hash e = h \<longrightarrow> getValueAt r (e_offset e) key = Inr None)"
          and post: "post = [] \<or> e_hash (hd post) = 0"
          by blast
        show False
        proof (cases pre)
          case Nil
          with split post nz show False by auto
        next
          case (Cons a pre')
          with split have "a = e" by simp
          with Cons pre True gv show False by auto
        qed
      qed
      ultimately show ?thesis by blast
    next
      case False
      then have step: "scan_entries r h key (e # l) = scan_entries r h key l"
        using nz gv by auto
      have ok: "e_hash e \<noteq> 0 \<and> (e_hash e = h \<longrightarrow> getValueAt r (e_offset e) key = Inr None)"
        using nz gv False by auto
      have "(\<exists>pre post. e # l = pre @ post
          \<and> (\<forall>e\<in>set pre. e_hash e \<noteq> 0
             \<and> (e_hash e = h \<longrightarrow> getValueAt r (e_offset e) key = Inr None))
          \<and> (post = [] \<or> e_hash (hd post) = 0)) \<longleftrightarrow>
        (\<exists>pre post. l = pre @ post
          \<and> (\<forall>e\<in>set pre. e_hash e \<noteq> 0
             \<and> (e_hash e = h \<longrightarrow> getValueAt r (e_offset e) key = Inr None))
          \<and> (post = [] \<or> e_hash (hd post) = 0))" (is "?L \<longleftrightarrow> ?R")
      proof
        assume ?L
        then obtain pre post where split: "e # l = pre @ post"
          and pre: "\<forall>e\<in>set pre. e_hash e \<noteq> 0
             \<and> (e_hash e = h \<longrightarrow> getValueAt r (e_offset e) key = Inr None)"
          and post: "post = [] \<or> e_hash (hd post) = 0"
          by blast
        show ?R
        proof (cases pre)
          case Nil
          with split post nz show ?R by auto
        next
          case (Cons a pre')
          with split have "l = pre' @ post" by simp
          moreover from Cons pre have "\<forall>e\<in>set pre'. e_hash e \<noteq> 0
             \<and> (e_hash e = h \<longrightarrow> getValueAt r (e_offset e) key = Inr None)"
            by simp
          ultimately show ?R using post by blast
        qed
      next
        assume ?R
        then obtain pre post where split: "l = pre @ post"
          and pre: "\<forall>e\<in>set pre. e_hash e \<noteq> 0
             \<and> (e_hash e = h \<longrightarrow> getValueAt r (e_offset e) key = Inr None)"
          and post: "post = [] \<or> e_hash (hd post) = 0"
          by blast
        from split have "e # l = (e # pre) @ post" by simp
        moreover from pre ok have "\<forall>e\<in>set (e # pre). e_hash e \<noteq> 0
             \<and> (e_hash e = h \<longrightarrow> getValueAt r (e_offset e) key = Inr None)"
          by simp
        ultimately show ?L using post by blast
      qed
      with step IH show ?thesis by simp
    qed
  qed
qed

lemma Get_built_missing:
  assumes "fits records" and "key \<notin> fst ` set records"
  shows "Get (built_CDB f records) key = Inr None"
proof -
  let ?h = "CDBHashSum32 key"
  let ?es = "pending_all records ! unat (?h AND 0xff)"
  have "getValueAt (built_file f records) (e_offset e) key = Inr None" if "e \<in> set ?es" for e
  proof -
    from getValueAt_entry [OF assms(1) bucket_less that, of f] obtain i where
      "i < length records"
      "getValueAt (built_file f records) (e_offset e) key =
            Inr (if key = fst (records ! i) then Some (snd (records ! i)) else None)"
      by blast
    moreover from this(1) assms(2) have "key \<noteq> fst (records ! i)"
      by (metis image_eqI nth_mem)
    ultimately show ?thesis by simp
  qed
  then have "scan_entries (built_file f records) ?h key l = Inr None" if "set l = set ?es" for l
    using that by (intro scan_entries_none) simp
  then show ?thesis
    by (simp add: built_CDB_def Get_built [OF assms(1)] Let_def)
qed

lemma Get_built_zero_hash:
  assumes "fits records" and "CDBHashSum32 key = 0"
  shows "Get (built_CDB f records) key = Inr None"
proof -
  have "scan_entries (built_file f records) 0 key l = Inr None" for l
    by (rule scan_entries_none) simp
  then show ?thesis
    by (simp add: built_CDB_def Get_built [OF assms(1)] Let_def assms(2))
qed

lemma Get_built_sound:
  assumes "fits records" and "Get (built_CDB f records) key = Inr (Some v)"
  shows "(key, v) \<in> set records"
proof -
  let ?h = "CDBHashSum32 key"
  let ?es = "pending_all records ! unat (?h AND 0xff)"
  from assms(2) have "?es \<noteq> []"
    and "scan_entries (built_file f records) ?h key
            (rotate (unat (drop_bit 8 ?h) mod length ?es) ?es) = Inr (Some v)"
    by (auto simp: built_CDB_def Get_built [OF assms(1)] Let_def split: if_splits)
  from scan_entries_Some [OF this(2)] obtain e where e: "e \<in> set ?es"
    and gv: "getValueAt (built_file f records) (e_offset e) key = Inr (Some v)"
    by auto
  from getValueAt_entry [OF assms(1) bucket_less e, of f] obtain i where
    i: "i < length records"
    and "getValueAt (built_file f records) (e_offset e) key =
            Inr (if key = fst (records ! i) then Some (snd (records ! i)) else None)"
    by blast
  with gv have "records ! i = (key, v)"
    by (cases "records ! i") (auto split: if_splits)
  with i show ?thesis
    by (metis nth_mem)
qed

lemma Get_built_found:
  assumes fits: "fits records" and dist: "distinct (map fst records)"
    and nz: "\<And>k'. k' \<in> fst ` set records \<Longrightarrow> CDBHashSum32 k' \<noteq> 0"
    and mem: "(k, v) \<in> set records"
  shows "Get (built_CDB f records) k = Inr (Some v)"
proof -
  let ?h = "CDBHashSum32 k"
  let ?es = "pending_all records ! unat (?h AND 0xff)"
  let ?r = "built_file f records"
  from mem obtain i where i: "i < length records" and ri: "records ! i = (k, v)"
    by (auto simp: in_set_conv_nth)
  from entry_of_record [OF i] ri obtain e0 where e0: "e0 \<in> set ?es"
    and h0: "e_hash e0 = ?h" and o0: "e_offset e0 = of_nat (record_offset records i)"
    by auto
  have gv0: "getValueAt ?r (e_offset e0) k = Inr (Some v)"
    using getValueAt_record [OF fits i, of f k] ri by (simp add: o0)
  have ne: "?es \<noteq> []"
    using e0 by auto
  have each: "e_hash e \<noteq> 0 \<and> (getValueAt ?r (e_offset e) k = Inr (Some v)
      \<or> getValueAt ?r (e_offset e) k = Inr None)" if "e \<in> set ?es" for e
  proof -
    from getValueAt_entry [OF fits bucket_less that, of f] obtain j where
      j: "j < length records" and hj: "e_hash e = CDBHashSum32 (fst (records ! j))"
      and gv: "getValueAt ?r (e_offset e) k =
            Inr (if k = fst (records ! j) then Some (snd (records ! j)) else None)"
      by blast
    have "e_hash e \<noteq> 0"
      using nz [of "fst (records ! j)"] j hj by simp
    moreover have "snd (records ! j) = v" if "k = fst (records ! j)"
    proof -
      from that ri have "map fst records ! j = map fst records ! i"
        using i j by simp
      with dist i j have "j = i"
        using nth_eq_iff_index_eq [of "map fst records" j i] by simp
      with ri show ?thesis by simp
    qed
    ultimately show ?thesis
      using gv by auto
  qed
  have "scan_entries ?r ?h k l = Inr (Some v)" if "set l = set ?es" for l
  proof (rule scan_entries_found)
    show "\<exists>e\<in>set l. e_hash e = ?h \<and> getValueAt ?r (e_offset e) k = Inr (Some v)"
      using e0 h0 gv0 that by auto
  qed (use each that in auto)
  then show ?thesis
    using ne by (simp add: built_CDB_def Get_built [OF fits] Let_def)
qed

section \<open>The claims about lookups\<close>

lemma build_Inr:
  assumes "build_Freeze w records = Inr db \<or> build_Close w records = Inr db"
  shows "fits records" and "db = built_CDB (contents w) records"
  using assms by (auto simp: build_Freeze_eq build_Close_eq split: if_splits)

lemma fits_eval:
  "fits records \<longleftrightarrow>
     2048 + sum_list (map (\<lambda>kv. 8 + length (fst kv) + length (snd kv)) records)
       + 8 * length records \<le> 4294967295"
proof -
  have "length (data_bytes records) =
      sum_list (map (\<lambda>kv. 8 + length (fst kv) + length (snd kv)) records)"
    by (induction records) (simp_all add: length_record_bytes)
  then show ?thesis
    unfolding fits_def indexSize_def maxUint32_def by linarith
qed

lemma fits_expectedRecords: "fits expectedRecords"
  by (simp add: fits_eval expectedRecords_def bytes_of_def)

lemma distinct_expectedRecords: "distinct (map fst expectedRecords)"
  by (simp add: expectedRecords_def bytes_of_def)

lemma hashes_expectedRecords: "list_all (\<lambda>k. CDBHashSum32 k \<noteq> 0) (map fst expectedRecords)"
  by code_simp

text \<open>
  C7.  A key that was never inserted is answered with "not found", not with an error, by
  a store of either kind (read through \<open>Freeze\<close>, or reopened after \<open>Close\<close>), empty or
  not; and when the key's bucket has length 0, \<open>Get\<close> answers "not found" whatever the
  reader holds, so without reading.
\<close>

theorem Get_missing_key:
  "(t_length (index cdb ! unat (CDBHashSum32 key AND 0xff)) = 0 \<longrightarrow> Get cdb key = Inr None)
   \<and> ((build_Freeze w records = Inr db \<or> build_Close w records = Inr db)
        \<and> key \<notin> fst ` set records \<longrightarrow> Get db key = Inr None)"
proof (intro conjI impI)
  assume "t_length (index cdb ! unat (CDBHashSum32 key AND 0xff)) = 0"
  then show "Get cdb key = Inr None"
    by (simp add: Get_def cdbHash_Sum32_def cdbHash_Write_def newCDBHash_def CDBHashSum32_def)
next
  assume a: "(build_Freeze w records = Inr db \<or> build_Close w records = Inr db)
        \<and> key \<notin> fst ` set records"
  then have "fits records" and "db = built_CDB (contents w) records"
    using build_Inr [of w records db] by simp_all
  with a show "Get db key = Inr None"
    by (simp add: Get_built_missing)
qed

theorem Get_missing_key_witness:
  "t_length (index \<lparr>reader = [], index = zero_index\<rparr>
       ! unat (CDBHashSum32 (bytes_of ''not in the table'') AND 0xff)) = 0
   \<and> Get \<lparr>reader = [], index = zero_index\<rparr> (bytes_of ''not in the table'') = Inr None
   \<and> build_Freeze empty_file expectedRecords = Inr (built_CDB [] expectedRecords)
   \<and> bytes_of ''not in the table'' \<notin> fst ` set expectedRecords
   \<and> Get (built_CDB [] expectedRecords) (bytes_of ''not in the table'') = Inr None
   \<and> build_Close empty_file [] = Inr (built_CDB [] [])
   \<and> Get (built_CDB [] []) (bytes_of ''not in the table'') = Inr None"
proof -
  let ?key = "bytes_of ''not in the table''"
  have 1: "t_length (index \<lparr>reader = [], index = zero_index\<rparr>
       ! unat (CDBHashSum32 ?key AND 0xff)) = 0"
    using bucket_less [of "CDBHashSum32 ?key"] by (simp add: zero_index_def)
  have 2: "build_Freeze empty_file expectedRecords = Inr (built_CDB [] expectedRecords)"
    by (simp add: build_Freeze_eq fits_expectedRecords empty_file_def)
  have 3: "?key \<notin> fst ` set expectedRecords"
    by (simp add: expectedRecords_def bytes_of_def)
  have 4: "build_Close empty_file [] = Inr (built_CDB [] [])"
    by (simp add: build_Close_eq fits_eval empty_file_def)
  have 5: "?key \<notin> fst ` set []"
    by simp
  from Get_missing_key [of "\<lparr>reader = [], index = zero_index\<rparr>" ?key empty_file
      expectedRecords "built_CDB [] expectedRecords"]
    Get_missing_key [of "\<lparr>reader = [], index = zero_index\<rparr>" ?key empty_file
      "[]" "built_CDB [] []"] 1 2 3 4 5
  show ?thesis
    by blast
qed

lemma probe_zero_slot:
  "readTuple r (t_offset t + 8 * slot) = Inr (0, off) \<Longrightarrow> probe r t h key slot = Inr None"
  by (subst probe.simps) (simp add: Let_def)

lemma zero_hash_key: "CDBHashSum32 (bytes_of ''vpbzfti'') = 0"
  by code_simp

lemma zero_hash_key': "CDBHashSum32 (bytes_of ''ootpwgq'') = 0"
  by code_simp

text \<open>
  C10.  A key whose hash is 0 is never found in a store the writer built, whether it was
  inserted or not: the loop leaves with "not found" at a slot whose stored hash is 0
  before it compares that slot with the hash of the key.
\<close>

theorem Get_zero_hash_key:
  "((build_Freeze w records = Inr db \<or> build_Close w records = Inr db)
      \<and> CDBHashSum32 key = 0 \<longrightarrow> Get db key = Inr None)
   \<and> (readTuple r (t_offset t + 8 * slot) = Inr (0, off) \<longrightarrow> probe r t h key' slot = Inr None)"
proof (intro conjI impI)
  assume a: "(build_Freeze w records = Inr db \<or> build_Close w records = Inr db)
      \<and> CDBHashSum32 key = 0"
  then have "fits records" and "db = built_CDB (contents w) records"
    using build_Inr [of w records db] by simp_all
  with a show "Get db key = Inr None"
    by (simp add: Get_built_zero_hash)
next
  assume "readTuple r (t_offset t + 8 * slot) = Inr (0, off)"
  then show "probe r t h key' slot = Inr None"
    by (rule probe_zero_slot)
qed

theorem Get_zero_hash_key_witness:
  "build_Freeze empty_file (expectedRecords @ [(bytes_of ''ootpwgq'', bytes_of ''zero'')])
     = Inr (built_CDB [] (expectedRecords @ [(bytes_of ''ootpwgq'', bytes_of ''zero'')]))
   \<and> CDBHashSum32 (bytes_of ''ootpwgq'') = 0
   \<and> (bytes_of ''ootpwgq'', bytes_of ''zero'')
        \<in> set (expectedRecords @ [(bytes_of ''ootpwgq'', bytes_of ''zero'')])
   \<and> Get (built_CDB [] (expectedRecords @ [(bytes_of ''ootpwgq'', bytes_of ''zero'')]))
        (bytes_of ''ootpwgq'') = Inr None
   \<and> readTuple (writeTuple 0 2048) (t_offset \<lparr>t_offset = 0, t_length = 1\<rparr> + 8 * 0)
        = Inr (0, 2048)
   \<and> probe (writeTuple 0 2048) \<lparr>t_offset = 0, t_length = 1\<rparr> 0 [] 0 = Inr None"
proof -
  let ?recs = "expectedRecords @ [(bytes_of ''ootpwgq'', bytes_of ''zero'')]"
  have "fits ?recs"
    by (simp add: fits_eval expectedRecords_def bytes_of_def)
  then have 1: "build_Freeze empty_file ?recs = Inr (built_CDB [] ?recs)"
    by (simp add: build_Freeze_eq empty_file_def)
  have 2: "readTuple (writeTuple 0 2048) (t_offset \<lparr>t_offset = 0, t_length = 1\<rparr> + 8 * 0)
        = Inr (0, 2048)"
    by (simp add: readTuple_def ReadAt_def)
  from Get_zero_hash_key [of empty_file ?recs "built_CDB [] ?recs" "bytes_of ''ootpwgq''"
      "writeTuple 0 2048" "\<lparr>t_offset = 0, t_length = 1\<rparr>" 0 2048 0 "[]"]
    1 2 zero_hash_key'
  show ?thesis
    by simp
qed

text \<open>
  The round trip where no inserted key has the hash 0: in a store built from records with
  pairwise distinct keys, \<open>Get\<close> returns for every inserted key exactly its value, and a
  value that \<open>Get\<close> returns for a key is the value of a record with that very key; the
  queries can be made in any order and any number of times.
\<close>

lemma Get_round_trip_nonzero_hash:
  assumes "build_Freeze w records = Inr db \<or> build_Close w records = Inr db"
    and "distinct (map fst records)"
    and "\<forall>k\<in>fst ` set records. CDBHashSum32 k \<noteq> 0"
  shows "(Get db k = Inr (Some v) \<longleftrightarrow> (k, v) \<in> set records)
    \<and> (set queries \<subseteq> set records \<longrightarrow>
          map (\<lambda>(k, v). Get db k) queries = map (\<lambda>(k, v). Inr (Some v)) queries)"
proof -
  from assms(1) have fits: "fits records" and db: "db = built_CDB (contents w) records"
    by (rule build_Inr)+
  have found: "Get db k = Inr (Some v)" if "(k, v) \<in> set records" for k v
    unfolding db using fits assms(2) _ that
    by (rule Get_built_found) (use assms(3) in blast)
  moreover have "(k, v) \<in> set records" if "Get db k = Inr (Some v)"
    using fits that unfolding db by (rule Get_built_sound)
  ultimately show ?thesis
    by (auto simp: subset_iff)
qed

text \<open>
  C1.  The round trip does not hold on the code for an inserted key whose hash is 0.
  The writer on an empty file, given the one record with the key \<open>vpbzfti\<close> and the
  value \<open>zero\<close>, and finished with \<open>Freeze\<close>, returns a store; the key is the only one
  put, so the keys are pairwise distinct; and \<open>Get\<close> of that key on that store answers
  "not found" (nil, nil) where the claim, the comment of \<open>Get\<close> (part_003:83) and the
  tests that read back every record they wrote (part_001:41-46, 84-89) require the value
  \<open>zero\<close>.  The hash of the key is 0, and the loop leaves at a slot whose stored hash is
  0 (part_003:106-108) before it compares the slot with the key.
\<close>

theorem Get_round_trip_fails_at_hash_zero:
  "build_Freeze empty_file [(bytes_of ''vpbzfti'', bytes_of ''zero'')]
     = Inr (built_CDB [] [(bytes_of ''vpbzfti'', bytes_of ''zero'')])
   \<and> distinct (map fst [(bytes_of ''vpbzfti'', bytes_of ''zero'')])
   \<and> CDBHashSum32 (bytes_of ''vpbzfti'') = 0
   \<and> Get (built_CDB [] [(bytes_of ''vpbzfti'', bytes_of ''zero'')]) (bytes_of ''vpbzfti'')
       = Inr None"
proof -
  let ?recs = "[(bytes_of ''vpbzfti'', bytes_of ''zero'')]"
  have fits: "fits ?recs"
    by (simp add: fits_eval bytes_of_def)
  then have "build_Freeze empty_file ?recs = Inr (built_CDB [] ?recs)"
    by (simp add: build_Freeze_eq empty_file_def)
  moreover have "Get (built_CDB [] ?recs) (bytes_of ''vpbzfti'') = Inr None"
    using fits zero_hash_key by (rule Get_built_zero_hash)
  ultimately show ?thesis
    using zero_hash_key by simp
qed

lemma hash_pu: "CDBHashSum32 (bytes_of ''pu'') = 5861376"
  by code_simp

lemma fits_shadowRecords: "fits shadowRecords"
  by (simp add: fits_eval shadowRecords_def bytes_of_def)

lemma pending_shadowRecords:
  "pending_all shadowRecords ! 0 =
     [\<lparr>e_hash = 0, e_offset = 2048\<rparr>, \<lparr>e_hash = 5861376, e_offset = 2067\<rparr>]"
  by (simp add: nth_pending_all shadowRecords_def zero_hash_key hash_pu indexSize_def
      length_record_bytes) (simp add: bytes_of_def)

lemma index_shadowRecords:
  "built_index shadowRecords ! 0 = \<lparr>t_offset = 2083, t_length = 2\<rparr>"
proof -
  have "length (data_bytes shadowRecords) = 35"
    by (simp add: shadowRecords_def length_record_bytes bytes_of_def)
  then show ?thesis
    by (simp add: built_index_def pending_shadowRecords indexSize_def)
qed

lemma scan_entries_rotate_none_iff:
  assumes "fits records" and "b < 256"
  shows "scan_entries (built_file f records) h key (rotate s (pending_all records ! b)) = Inr None
    \<longleftrightarrow> (\<exists>pre post. rotate s (pending_all records ! b) = pre @ post
       \<and> (\<forall>e\<in>set pre. e_hash e \<noteq> 0
             \<and> (e_hash e = h \<longrightarrow> getValueAt (built_file f records) (e_offset e) key = Inr None))
       \<and> (post = [] \<or> e_hash (hd post) = 0))"
proof (rule scan_entries_none_iff)
  fix e assume "e \<in> set (rotate s (pending_all records ! b))"
  then have "e \<in> set (pending_all records ! b)" by simp
  from getValueAt_entry [OF assms this, of f]
  show "\<exists>x. getValueAt (built_file f records) (e_offset e) key = Inr x"
    by auto
qed

text \<open>
  What the probe loop of part_003 does in a store the writer built.  The table of the
  key's bucket holds exactly the entries put into that bucket, one per slot and in \<open>Put\<close>
  order, with no empty slot.  When the bucket is not empty, \<open>Get\<close> reads the slots in
  cyclic order from the starting slot and answers "not found" exactly when it stops in
  one of two ways: the slots read so far (\<open>pre\<close>) all have a stored hash other than 0 and
  none matches the key, and either the next slot has the stored hash 0, or there is no
  next slot because the slot index is back at the starting slot.
\<close>

lemma probe_not_found_iff:
  assumes "build_Freeze w records = Inr db \<or> build_Close w records = Inr db"
    and "table = index db ! unat (CDBHashSum32 key AND 0xff)"
    and "es = pending_all records ! unat (CDBHashSum32 key AND 0xff)"
  shows "unat (t_length table) = length es
    \<and> (\<forall>slot. unat slot < length es \<longrightarrow>
          readTuple (reader db) (t_offset table + 8 * slot) =
            Inr (e_hash (es ! unat slot), e_offset (es ! unat slot)))
    \<and> (es \<noteq> [] \<longrightarrow>
         (Get db key = Inr None \<longleftrightarrow>
            (\<exists>pre post.
               rotate (unat (startingSlot (CDBHashSum32 key) table)) es = pre @ post
               \<and> (\<forall>e\<in>set pre. e_hash e \<noteq> 0
                     \<and> (e_hash e = CDBHashSum32 key \<longrightarrow>
                          getValueAt (reader db) (e_offset e) key = Inr None))
               \<and> (post = [] \<or> e_hash (hd post) = 0))))"
proof -
  let ?h = "CDBHashSum32 key"
  let ?b = "unat (?h AND 0xff)"
  from assms(1) have fits: "fits records" and db: "db = built_CDB (contents w) records"
    by (rule build_Inr)+
  have b: "?b < 256" by (rule bucket_less)
  have n: "unat (t_length table) = length es"
    unfolding assms(2,3) db built_CDB_def using unat_t_length [OF fits b] by simp
  have rd: "readTuple (reader db) (t_offset table + 8 * slot) =
            Inr (e_hash (es ! unat slot), e_offset (es ! unat slot))"
    if "unat slot < length es" for slot
    using readTuple_slot [OF fits b, of slot "contents w"] that
    unfolding assms(2,3) db built_CDB_def by simp
  have s: "unat (startingSlot ?h table) = unat (drop_bit 8 ?h) mod length es"
    by (simp add: startingSlot_def unat_mod n)
  have "Get db key = Inr None \<longleftrightarrow>
            (\<exists>pre post.
               rotate (unat (startingSlot ?h table)) es = pre @ post
               \<and> (\<forall>e\<in>set pre. e_hash e \<noteq> 0
                     \<and> (e_hash e = ?h \<longrightarrow>
                          getValueAt (reader db) (e_offset e) key = Inr None))
               \<and> (post = [] \<or> e_hash (hd post) = 0))" if "es \<noteq> []"
    using that scan_entries_rotate_none_iff [OF fits b, of "contents w" ?h key
        "unat (drop_bit 8 ?h) mod length es"]
    unfolding s assms(3) db by (simp add: built_CDB_def Get_built [OF fits] Let_def)
  with n rd show ?thesis
    by blast
qed

text \<open>
  The older \<open>Get\<close> (part_002) has no test for the full cycle.  On a key that was not
  inserted, whose bucket is not empty and holds no entry with the hash 0, its loop never
  ends: in the test data the key \<open>ec\<close> falls into the bucket of \<open>foo\<close>.
\<close>

lemma probe_unguarded_diverges:
  fixes slot :: uint32
  assumes rd: "\<And>slot. unat slot < length es \<Longrightarrow>
      readTuple r (t_offset t + 8 * slot) = Inr (e_hash (es ! unat slot), e_offset (es ! unat slot))"
    and n: "unat (t_length t) = length es"
    and no: "\<And>e. e \<in> set es \<Longrightarrow> e_hash e \<noteq> 0
        \<and> (e_hash e = h \<longrightarrow> getValueAt r (e_offset e) key = Inr None)"
    and slot: "unat slot < length es"
  shows "probe_unguarded r t h key slot = None"
proof (rule ccontr)
  assume "probe_unguarded r t h key slot \<noteq> None"
  then obtain y where y: "probe_unguarded r t h key slot = Some y"
    by auto
  have "\<not> (r' = r \<and> t' = t \<and> h' = h \<and> key' = key \<and> unat slot' < length es)"
    if "probe_unguarded r' t' h' key' slot' = Some y'" for r' t' h' key' slot' y'
  proof (rule probe_unguarded.raw_induct [where P = "\<lambda>r' t' h' key' slot' y'.
      \<not> (r' = r \<and> t' = t \<and> h' = h \<and> key' = key \<and> unat slot' < length es)", OF _ that],
      goal_cases)
    case (1 probe r' t' h' key' slot' y')
    show ?case
    proof
      assume a: "r' = r \<and> t' = t \<and> h' = h \<and> key' = key \<and> unat slot' < length es"
      then have lt: "unat slot' < length es" by simp
      let ?e = "es ! unat slot'"
      from lt have mem: "?e \<in> set es" by simp
      from n lt have len: "t_length t \<noteq> 0"
        by auto
      have lt': "unat ((slot' + 1) mod t_length t) < length es"
        using unat_mod_less [OF len, of "slot' + 1"] n by simp
      have "probe r t h key ((slot' + 1) mod t_length t) = Some y'"
        using 1(2) a rd [OF lt] no [OF mem] len
        by (auto simp: Let_def split: if_splits)
      from 1(1) [OF this] lt' show False
        by simp
    qed
  qed
  from this [OF y] slot show False
    by simp
qed

lemma Get_unguarded_diverges:
  assumes fits: "fits records" and miss: "key \<notin> fst ` set records"
    and ne: "pending_all records ! unat (CDBHashSum32 key AND 0xff) \<noteq> []"
    and nz: "\<And>k. k \<in> fst ` set records \<Longrightarrow> CDBHashSum32 k \<noteq> 0"
  shows "Get_unguarded (built_CDB f records) key = None"
proof -
  let ?h = "CDBHashSum32 key"
  let ?b = "unat (?h AND 0xff)"
  let ?t = "built_index records ! ?b"
  let ?es = "pending_all records ! ?b"
  have b: "?b < 256" by (rule bucket_less)
  have n: "unat (t_length ?t) = length ?es"
    using fits b by (rule unat_t_length)
  with ne have len: "t_length ?t \<noteq> 0"
    by auto
  have h: "cdbHash_Sum32 (cdbHash_Write newCDBHash key) = ?h"
    by (simp add: cdbHash_Sum32_def cdbHash_Write_def newCDBHash_def CDBHashSum32_def)
  have no: "e_hash e \<noteq> 0
      \<and> (e_hash e = ?h \<longrightarrow> getValueAt (built_file f records) (e_offset e) key = Inr None)"
    if "e \<in> set ?es" for e
  proof -
    from getValueAt_entry [OF fits b that, of f] obtain i where
      i: "i < length records" and hi: "e_hash e = CDBHashSum32 (fst (records ! i))"
      and gv: "getValueAt (built_file f records) (e_offset e) key =
            Inr (if key = fst (records ! i) then Some (snd (records ! i)) else None)"
      by blast
    from i have "fst (records ! i) \<in> fst ` set records"
      by simp
    with miss nz [of "fst (records ! i)"] hi gv show ?thesis
      by auto
  qed
  have "unat (drop_bit 8 ?h mod t_length ?t) < length ?es"
    using unat_mod_less [OF len, of "drop_bit 8 ?h"] n by simp
  with readTuple_slot [OF fits b] n no
  have "probe_unguarded (built_file f records) ?t ?h key (drop_bit 8 ?h mod t_length ?t) = None"
    by (rule probe_unguarded_diverges)
  with len show ?thesis
    by (simp add: Get_unguarded_def built_CDB_def h Let_def)
qed

lemma Get_unguarded_runs_forever:
  "Get_unguarded (built_CDB [] expectedRecords) (bytes_of ''ec'') = None"
proof -
  have hash: "CDBHashSum32 (bytes_of ''ec'') = 5860771"
    by code_simp
  have "\<lparr>e_hash = CDBHashSum32 (fst (expectedRecords ! 0)),
      e_offset = word_of_int (int indexSize + int (length (data_bytes (take 0 expectedRecords))))\<rparr>
    \<in> set (pending (int indexSize) expectedRecords
        (unat (CDBHashSum32 (fst (expectedRecords ! 0)) AND 0xff)))"
    by (rule pending_mem) (simp add: expectedRecords_def)
  moreover have "CDBHashSum32 (fst (expectedRecords ! 0)) = 193410979"
    unfolding expectedRecords_def by code_simp
  ultimately have ne: "pending_all expectedRecords ! unat (CDBHashSum32 (bytes_of ''ec'') AND 0xff)
      \<noteq> []"
    by (auto simp: hash nth_pending_all)
  have miss: "bytes_of ''ec'' \<notin> fst ` set expectedRecords"
    by (simp add: expectedRecords_def bytes_of_def)
  have nz: "CDBHashSum32 k \<noteq> 0" if "k \<in> fst ` set expectedRecords" for k
    using hashes_expectedRecords that by (auto simp: list_all_iff)
  from fits_expectedRecords miss ne nz show ?thesis
    by (rule Get_unguarded_diverges)
qed

text \<open>
  C2.  The probe loop does not answer "not found" only after a full cycle: the value of a
  stored slot hash ends it early.  The writer on an empty file, given the records
  (\<open>vpbzfti\<close>, \<open>zero\<close>) and (\<open>pu\<close>, \<open>hidden\<close>), builds a store whose bucket 0 has a table
  of two slots, both filled.  The key \<open>pu\<close> starts at slot 0; slot 0 holds the entry of
  \<open>vpbzfti\<close>, whose hash is 0; slot 1 holds the entry of \<open>pu\<close> itself, at whose offset the
  record of \<open>pu\<close> is found.  \<open>Get\<close> of \<open>pu\<close> answers "not found" at slot 0, without
  reading slot 1 (part_003:106-108), and so does the older \<open>Get\<close> (part_002:72-73).  The
  older \<open>Get\<close>, which has no other way to answer "not found", does not return at all for
  the key \<open>ec\<close> on the store of the test data.
\<close>

theorem probe_stops_at_stored_hash_zero:
  "build_Freeze empty_file shadowRecords = Inr (built_CDB [] shadowRecords)
   \<and> unat (CDBHashSum32 (bytes_of ''pu'') AND 0xff) = 0
   \<and> index (built_CDB [] shadowRecords) ! 0 = \<lparr>t_offset = 2083, t_length = 2\<rparr>
   \<and> startingSlot (CDBHashSum32 (bytes_of ''pu'')) \<lparr>t_offset = 2083, t_length = 2\<rparr> = 0
   \<and> readTuple (reader (built_CDB [] shadowRecords)) (2083 + 8 * 0) = Inr (0, 2048)
   \<and> readTuple (reader (built_CDB [] shadowRecords)) (2083 + 8 * 1)
       = Inr (CDBHashSum32 (bytes_of ''pu''), 2067)
   \<and> getValueAt (reader (built_CDB [] shadowRecords)) 2067 (bytes_of ''pu'')
       = Inr (Some (bytes_of ''hidden''))
   \<and> Get (built_CDB [] shadowRecords) (bytes_of ''pu'') = Inr None
   \<and> Get_unguarded (built_CDB [] shadowRecords) (bytes_of ''pu'') = Some (Inr None)
   \<and> Get_unguarded (built_CDB [] expectedRecords) (bytes_of ''ec'') = None"
proof -
  have 1: "build_Freeze empty_file shadowRecords = Inr (built_CDB [] shadowRecords)"
    by (simp add: build_Freeze_eq fits_shadowRecords empty_file_def)
  have 2: "unat (CDBHashSum32 (bytes_of ''pu'') AND 0xff) = 0"
    by (simp add: hash_pu)
  have 3: "index (built_CDB [] shadowRecords) ! 0 = \<lparr>t_offset = 2083, t_length = 2\<rparr>"
    by (simp add: built_CDB_def index_shadowRecords)
  have 4: "startingSlot (CDBHashSum32 (bytes_of ''pu'')) \<lparr>t_offset = 2083, t_length = 2\<rparr> = 0"
    by (simp add: startingSlot_def hash_pu)
  have slot: "readTuple (built_file [] shadowRecords)
        (t_offset (built_index shadowRecords ! 0) + 8 * slot) =
      Inr (e_hash (pending_all shadowRecords ! 0 ! unat slot),
           e_offset (pending_all shadowRecords ! 0 ! unat slot))"
    if "unat slot < 2" for slot
  proof (rule readTuple_slot [OF fits_shadowRecords])
    show "(0::nat) < 256" by simp
    show "unat slot < length (pending_all shadowRecords ! 0)"
      using that by (simp add: pending_shadowRecords)
  qed
  have 5: "readTuple (reader (built_CDB [] shadowRecords)) (2083 + 8 * 0) = Inr (0, 2048)"
    using slot [of 0] by (simp add: built_CDB_def index_shadowRecords pending_shadowRecords)
  have 6: "readTuple (reader (built_CDB [] shadowRecords)) (2083 + 8 * 1)
       = Inr (CDBHashSum32 (bytes_of ''pu''), 2067)"
    using slot [of 1]
    by (simp add: built_CDB_def index_shadowRecords pending_shadowRecords hash_pu)
  have "record_offset shadowRecords 1 = 2067"
    by (simp add: record_offset_def shadowRecords_def length_record_bytes indexSize_def
        bytes_of_def)
  with getValueAt_record [OF fits_shadowRecords, of 1 "[]" "bytes_of ''pu''"]
  have 7: "getValueAt (reader (built_CDB [] shadowRecords)) 2067 (bytes_of ''pu'')
       = Inr (Some (bytes_of ''hidden''))"
    by (simp add: built_CDB_def shadowRecords_def)
  have "(22896::nat) mod Suc (Suc 0) = 0"
    by presburger
  then have 8: "Get (built_CDB [] shadowRecords) (bytes_of ''pu'') = Inr None"
    by (simp add: built_CDB_def Get_built [OF fits_shadowRecords] hash_pu
        pending_shadowRecords Let_def)
  have "drop_bit 8 (5861376 :: uint32) mod 2 = 0"
    by simp
  then have 9: "Get_unguarded (built_CDB [] shadowRecords) (bytes_of ''pu'') = Some (Inr None)"
    using 5
    by (simp add: Get_unguarded_def built_CDB_def cdbHash_Sum32_def cdbHash_Write_def
        newCDBHash_def CDBHashSum32_def [symmetric] hash_pu index_shadowRecords
        probe_unguarded.simps [of _ _ _ _ 0] Let_def)
  note 10 = Get_unguarded_runs_forever
  from 1 2 3 4 5 6 7 8 9 10 show ?thesis
    by (simp only: simp_thms)
qed

section \<open>The claim about iteration\<close>

lemma record_offset_Suc:
  assumes "i < length records"
  shows "record_offset records (Suc i) =
    record_offset records i + 8 + length (fst (records ! i)) + length (snd (records ! i))"
  using assms
  by (simp add: record_offset_def take_Suc_conv_app_nth data_bytes_append length_record_bytes)

lemma record_offset_length:
  "record_offset records (length records) = indexSize + length (data_bytes records)"
  by (simp add: record_offset_def)

lemma ReadAt_record:
  assumes "fits records" and "i < length records"
  shows "ReadAt (built_file f records)
      (unat (of_nat (length (fst (records ! i))) + of_nat (length (snd (records ! i))) :: uint32))
      (unat (of_nat (record_offset records i) + 8 :: uint32)) =
    Inr (fst (records ! i) @ snd (records ! i))"
    and "unat (of_nat (length (fst (records ! i))) :: uint32) = length (fst (records ! i))"
proof -
  let ?k = "fst (records ! i)" and ?v = "snd (records ! i)"
  let ?o = "record_offset records i"
  note b = record_in_bounds [OF assms]
  show uk: "unat (of_nat (length ?k) :: uint32) = length ?k"
    using b(1) by (simp add: unat_of_nat32)
  have "length ?k + length ?v < 2 ^ 32"
    using b(1) by simp
  then have "unat (of_nat (length ?k + length ?v) :: uint32) = length ?k + length ?v"
    by (rule unat_of_nat32)
  then have ukv: "unat (of_nat (length ?k) + of_nat (length ?v) :: uint32) = length ?k + length ?v"
    by simp
  have "?o + 8 < 2 ^ 32"
    using b(1) by simp
  then have "unat (of_nat (?o + 8) :: uint32) = ?o + 8"
    by (rule unat_of_nat32)
  then have uo: "unat (of_nat ?o + 8 :: uint32) = ?o + 8"
    by simp
  have ge: "indexSize \<le> ?o + 8"
    by (simp add: record_offset_def)
  have le: "?o + 8 + (length ?k + length ?v) \<le> indexSize + length (body_bytes records)"
    using b(2) by simp
  have "drop (?o + 8 - indexSize) (body_bytes records) =
      drop 8 (drop (?o - indexSize) (body_bytes records))"
    by (simp add: record_offset_def add.commute)
  then have "ReadAt (built_file f records) (length ?k + length ?v) (?o + 8) = Inr (?k @ ?v)"
    unfolding ReadAt_built_body [OF ge le]
    by (simp add: drop_body_record [OF assms(2)] record_bytes_def)
  then show "ReadAt (built_file f records)
      (unat (of_nat (length ?k) + of_nat (length ?v) :: uint32))
      (unat (of_nat ?o + 8 :: uint32)) = Inr (?k @ ?v)"
    by (simp only: ukv uo)
qed

lemma Each_loop_built:
  assumes "fits records" and "i \<le> length records"
    and endPos: "endPos = of_nat (indexSize + length (data_bytes records))"
  shows "Each_loop (built_file f records) eachFunc endPos (of_nat (record_offset records i)) s =
    Some (visit_all eachFunc (drop i records) s)"
  using assms(2)
proof (induction "length records - i" arbitrary: i s)
  case 0
  then have "i = length records" by simp
  then show ?case
    by (subst Each_loop.simps) (simp add: record_offset_length endPos)
next
  case (Suc n)
  then have i: "i < length records" by simp
  let ?k = "fst (records ! i)" and ?v = "snd (records ! i)"
  let ?r = "built_file f records"
  let ?pos = "of_nat (record_offset records i) :: uint32"
  note b = record_in_bounds [OF assms(1) i]
  have dend: "indexSize + length (data_bytes records) < 2 ^ 32"
    using fits_body [OF assms(1)] by (simp add: length_body_bytes)
  have ue: "unat endPos = indexSize + length (data_bytes records)"
    unfolding endPos using dend by (rule unat_of_nat32)
  have ro: "record_offset records i < indexSize + length (data_bytes records)"
    using record_end_le [OF i] by (simp add: length_record_bytes)
  with dend have "record_offset records i < 2 ^ 32"
    by simp
  then have "unat ?pos = record_offset records i"
    by (rule unat_of_nat32)
  with ro ue have lt: "?pos < endPos"
    by (simp only: word_less_nat_alt)
  have next_pos: "?pos + (8 + of_nat (length ?k) + of_nat (length ?v)) =
      (of_nat (record_offset records (Suc i)) :: uint32)"
    by (simp add: record_offset_Suc [OF i])
  have IH: "Each_loop ?r eachFunc endPos (of_nat (record_offset records (Suc i))) s' =
      Some (visit_all eachFunc (drop (Suc i) records) s')" for s'
    using Suc(2) i by (intro Suc(1)) simp_all
  have dr: "drop i records = records ! i # drop (Suc i) records"
    using i by (simp add: Cons_nth_drop_Suc)
  show ?case
    by (subst Each_loop.simps)
      (simp add: lt readTuple_record [OF assms(1) i] ReadAt_record [OF assms(1) i]
        next_pos IH dr split: prod.splits option.splits)
qed

lemma Each_built:
  assumes "fits records"
  shows "Each (built_CDB f records) eachFunc s = Some (visit_all eachFunc records s)"
proof -
  have "t_offset (built_index records ! 0) = of_nat (indexSize + length (data_bytes records))"
    by (simp add: built_index_def)
  moreover have "(of_nat indexSize :: uint32) = of_nat (record_offset records 0)"
    by (simp add: record_offset_def)
  ultimately show ?thesis
    using Each_loop_built [OF assms _ refl, of 0 f eachFunc s]
    by (simp add: Each_def built_CDB_def)
qed

lemma visit_all_collect:
  "visit_all (\<lambda>k v seen. (None, seen @ [(k, v)])) records acc = (None, acc @ records)"
  by (induction records arbitrary: acc) simp_all

text \<open>
  C3.  On a store the writer built from the records, \<open>Each\<close> returns, and it has called
  the visitor on the records in \<open>Put\<close> order up to the first error of the visitor, which
  it returns; a visitor that never fails and collects what it is given ends with exactly
  the list of the records.  On any reader, a failed read of the length pair ends the scan
  with that error.
\<close>

theorem Each_visits_records:
  "((build_Freeze w records = Inr db \<or> build_Close w records = Inr db) \<longrightarrow>
      Each db eachFunc s = Some (visit_all eachFunc records s)
      \<and> Each db (\<lambda>k v seen. (None, seen @ [(k, v)])) [] = Some (None, records))
   \<and> (pos < endPos \<and> readTuple r pos = Inl err \<longrightarrow>
        Each_loop r eachFunc endPos pos s = Some (Some err, s))"
proof (intro conjI impI)
  assume a: "build_Freeze w records = Inr db \<or> build_Close w records = Inr db"
  then have fits: "fits records" and db: "db = built_CDB (contents w) records"
    by (rule build_Inr)+
  show "Each db eachFunc s = Some (visit_all eachFunc records s)"
    unfolding db using fits by (rule Each_built)
  show "Each db (\<lambda>k v seen. (None, seen @ [(k, v)])) [] = Some (None, records)"
    unfolding db using Each_built [OF fits, of "contents w" "\<lambda>k v seen. (None, seen @ [(k, v)])" "[]"]
    by (simp add: visit_all_collect)
next
  assume "pos < endPos \<and> readTuple r pos = Inl err"
  then show "Each_loop r eachFunc endPos pos s = Some (Some err, s)"
    by (subst Each_loop.simps) simp
qed

theorem Each_visits_records_witness:
  "build_Freeze empty_file expectedRecords = Inr (built_CDB [] expectedRecords)
   \<and> Each (built_CDB [] expectedRecords) (\<lambda>k v seen. (None, seen @ [(k, v)])) []
       = Some (None, expectedRecords)
   \<and> Each (built_CDB [] expectedRecords)
       (\<lambda>k v n. if k = bytes_of ''baz'' then (Some ErrInvalid, n) else (None, Suc n)) 0
       = Some (Some ErrInvalid, 1)
   \<and> (0 :: uint32) < 1 \<and> readTuple [] 0 = Inl EOF
   \<and> Each_loop [] (\<lambda>k v seen. (None, seen @ [(k, v)])) 1 0 [] = Some (Some EOF, [])"
proof -
  have 1: "build_Freeze empty_file expectedRecords = Inr (built_CDB [] expectedRecords)
      \<or> build_Close empty_file expectedRecords = Inr (built_CDB [] expectedRecords)"
    by (simp add: build_Freeze_eq fits_expectedRecords empty_file_def)
  have 2: "(0 :: uint32) < 1 \<and> readTuple [] 0 = Inl EOF"
    by (simp add: readTuple_def ReadAt_def)
  have 3: "visit_all (\<lambda>k v n. if k = bytes_of ''baz'' then (Some ErrInvalid, n) else (None, Suc n))
      expectedRecords (0::nat) = (Some ErrInvalid, 1)"
    by (simp add: expectedRecords_def bytes_of_def)
  from Each_visits_records [of empty_file expectedRecords "built_CDB [] expectedRecords"
      "\<lambda>k v n. if k = bytes_of ''baz'' then (Some ErrInvalid, n) else (None, Suc n)" "0::nat"]
    Each_visits_records [of empty_file expectedRecords "built_CDB [] expectedRecords"
      "\<lambda>k v seen. (None, seen @ [(k, v)])" "[]" 0 1 "[]" EOF]
    1 2 3
  show ?thesis
    by (simp add: build_Freeze_eq fits_expectedRecords empty_file_def)
qed

section \<open>The claim about the index\<close>

lemma length_data_bytes:
  "length (data_bytes records) = sum_list (map (\<lambda>(k, v). 8 + length k + length v) records)"
  by (induction records) (simp_all add: length_record_bytes split_beta)

lemma built_index_offsets:
  assumes "fits records" and "i < 256"
  shows "unat (t_offset (built_index records ! i)) =
    indexSize + length (data_bytes records) + 8 * entry_count (pending_all records) 0 i"
proof -
  have "entry_count (pending_all records) 0 i \<le> entry_count (pending_all records) 0 256"
    using assms(2) by (intro entry_count_mono) simp_all
  then have "entry_count (pending_all records) 0 i \<le> length records"
    by (simp add: entry_count_pending_all)
  with assms(1) have "indexSize + length (data_bytes records)
      + 8 * entry_count (pending_all records) 0 i < 2 ^ 32"
    by (simp add: fits_def maxUint32_def)
  then have "unat (of_nat (indexSize + length (data_bytes records)
      + 8 * entry_count (pending_all records) 0 i) :: uint32) =
    indexSize + length (data_bytes records) + 8 * entry_count (pending_all records) 0 i"
    by (rule unat_of_nat32)
  moreover have "t_offset (built_index records ! i) =
      of_nat (indexSize + length (data_bytes records) + 8 * entry_count (pending_all records) 0 i)"
    using assms(2) by (simp add: built_index_def)
  ultimately show ?thesis
    by simp
qed

lemma finalize_tables_keeps:
  "j \<notin> set is \<Longrightarrow> fst (snd (finalize_tables is ents idx wr buf off)) ! j = idx ! j"
proof (induction "is" arbitrary: idx wr buf off)
  case Nil
  then show ?case by simp
next
  case (Cons i "is")
  then show ?case
    by (auto simp: Let_def split: prod.splits option.splits)
qed

lemma finalize_first_offset:
  assumes "bufferedWriter cdb = Some buf"
  shows "t_offset (fst (finalize cdb) ! 0) = word_of_int (bufferedOffset cdb)"
proof -
  let ?idx1 = "zero_index[0 := \<lparr>t_offset = word_of_int (bufferedOffset cdb),
      t_length = of_nat (length (entries cdb ! 0))\<rparr>]"
  have up: "[0..<256] = 0 # [1..<256]"
    by (simp add: upt_conv_Cons)
  have keep: "fst (snd (finalize_tables [1..<256] (entries cdb) ?idx1 w' b' o')) ! 0 = ?idx1 ! 0"
    for w' b' o'
    by (rule finalize_tables_keeps) simp
  have "fst (snd (finalize_tables [0..<256] (entries cdb) zero_index (writer cdb) buf
      (bufferedOffset cdb))) ! 0 = ?idx1 ! 0"
    unfolding up using keep
    by (cases "write_entries (entries cdb ! 0) (writer cdb) buf (bufferedOffset cdb)")
      (auto simp: Let_def split: option.splits)
  moreover have "?idx1 ! 0 = \<lparr>t_offset = word_of_int (bufferedOffset cdb),
      t_length = of_nat (length (entries cdb ! 0))\<rparr>"
    by (simp add: zero_index_def)
  ultimately show ?thesis
    using assms by (auto simp: finalize_def split: prod.splits option.splits)
qed

lemma no_key_in_bucket0: "pending_all expectedRecords ! 0 = []"
proof -
  have "list_all (\<lambda>k. unat (CDBHashSum32 k AND 0xff) \<noteq> 0) (map fst expectedRecords)"
    by code_simp
  then have "\<forall>kv\<in>set expectedRecords. unat (CDBHashSum32 (fst kv) AND 0xff) \<noteq> 0"
    by (simp add: list_all_iff)
  moreover have "(\<forall>kv\<in>set records. unat (CDBHashSum32 (fst kv) AND 0xff) \<noteq> b)
      \<Longrightarrow> pending off records b = []" for records off b
    by (induction records arbitrary: off) simp_all
  ultimately show ?thesis
    by (simp add: nth_pending_all)
qed

text \<open>
  C9.  \<open>finalize\<close> stores for bucket 0 the offset at which it starts, before it writes
  any table.  In a store the writer built, that offset is the end of the data region,
  2048 plus the lengths of all records, also when bucket 0 has no entry, and no bucket's
  table starts before it.
\<close>

theorem bucket0_offset_is_data_end:
  "(bufferedWriter cdb = Some buf \<longrightarrow>
      t_offset (fst (finalize cdb) ! 0) = word_of_int (bufferedOffset cdb))
   \<and> (build_Freeze w records = Inr db \<or> build_Close w records = Inr db \<longrightarrow>
        unat (t_offset (index db ! 0)) =
          2048 + sum_list (map (\<lambda>(k, v). 8 + length k + length v) records)
        \<and> (\<forall>i<256. t_offset (index db ! 0) \<le> t_offset (index db ! i)))"
proof (intro conjI impI allI)
  assume "bufferedWriter cdb = Some buf"
  then show "t_offset (fst (finalize cdb) ! 0) = word_of_int (bufferedOffset cdb)"
    by (rule finalize_first_offset)
next
  assume a: "build_Freeze w records = Inr db \<or> build_Close w records = Inr db"
  then have fits: "fits records" and db: "db = built_CDB (contents w) records"
    by (rule build_Inr)+
  have 0: "unat (t_offset (index db ! 0)) = indexSize + length (data_bytes records)"
    using built_index_offsets [OF fits, of 0] by (simp add: db built_CDB_def)
  then show "unat (t_offset (index db ! 0)) =
          2048 + sum_list (map (\<lambda>(k, v). 8 + length k + length v) records)"
    by (simp add: length_data_bytes indexSize_def)
  fix i :: nat assume "i < 256"
  then have "unat (t_offset (index db ! i)) =
      indexSize + length (data_bytes records) + 8 * entry_count (pending_all records) 0 i"
    using built_index_offsets [OF fits, of i] by (simp add: db built_CDB_def)
  with 0 show "t_offset (index db ! 0) \<le> t_offset (index db ! i)"
    by (simp add: word_le_nat_alt)
qed

theorem bucket0_offset_is_data_end_witness:
  "bufferedWriter (NewWriter empty_file) = Some []
   \<and> t_offset (fst (finalize (NewWriter empty_file)) ! 0) = 2048
   \<and> build_Freeze empty_file expectedRecords = Inr (built_CDB [] expectedRecords)
   \<and> t_length (index (built_CDB [] expectedRecords) ! 0) = 0
   \<and> unat (t_offset (index (built_CDB [] expectedRecords) ! 0)) = 2213
   \<and> t_offset (index (built_CDB [] expectedRecords) ! 0)
        \<le> t_offset (index (built_CDB [] expectedRecords) ! 163)"
proof -
  have 1: "build_Freeze empty_file expectedRecords = Inr (built_CDB [] expectedRecords)
      \<or> build_Close empty_file expectedRecords = Inr (built_CDB [] expectedRecords)"
    by (simp add: build_Freeze_eq fits_expectedRecords empty_file_def)
  have 2: "t_length (index (built_CDB [] expectedRecords) ! 0) = 0"
    by (simp add: built_CDB_def built_index_def no_key_in_bucket0)
  have 3: "sum_list (map (\<lambda>(k, v). 8 + length k + length v) expectedRecords) = 165"
    by (simp add: expectedRecords_def bytes_of_def)
  have 4: "(163::nat) < 256"
    by simp
  from bucket0_offset_is_data_end [of "NewWriter empty_file" "[]" empty_file expectedRecords
      "built_CDB [] expectedRecords"] 1 2 3 4
  show ?thesis
    by (simp add: build_Freeze_eq fits_expectedRecords empty_file_def indexSize_def)
qed

section \<open>The claims about the writer\<close>

lemma uint_word_of_int32: "0 \<le> k \<Longrightarrow> k \<le> maxUint32 \<Longrightarrow> uint (word_of_int k :: uint32) = k"
  by (simp add: uint_word_of_int maxUint32_def)

lemma finalize_err:
  assumes "bufferedWriter cdb = Some buf" and "0 < entry_count (entries cdb) 0 256"
    and "maxUint32 < bufferedOffset cdb + 8 * int (entry_count (entries cdb) 0 256)"
  shows "fst (snd (finalize cdb)) = Some ErrTooMuchData"
proof -
  have "fst (finalize_tables [0..<256] (entries cdb) zero_index (writer cdb) buf
      (bufferedOffset cdb)) = Some ErrTooMuchData"
    using _ assms(2,3) by (rule finalize_tables_err) simp
  then show ?thesis
    by (auto simp: finalize_def assms(1) split: prod.splits option.splits)
qed

lemma finalize_ok:
  assumes "bufferedWriter cdb = Some buf" and "0 \<le> bufferedOffset cdb"
    and "bufferedOffset cdb + 8 * int (entry_count (entries cdb) 0 256) \<le> maxUint32"
  shows "fst (snd (finalize cdb)) = None"
    and "i < 256 \<Longrightarrow> uint (t_offset (fst (finalize cdb) ! i)) =
      bufferedOffset cdb + 8 * int (entry_count (entries cdb) 0 i)"
proof -
  have "(0::nat) \<le> 256" "256 \<le> length zero_index"
    by (simp_all add: zero_index_def)
  from finalize_tables_ok [OF this assms(3), of "writer cdb" buf]
  obtain idx' wr' buf' where
    ft: "finalize_tables [0..<256] (entries cdb) zero_index (writer cdb) buf
           (bufferedOffset cdb) =
           (None, idx', wr', buf',
            bufferedOffset cdb + 8 * int (entry_count (entries cdb) 0 256))"
    and inside: "\<forall>i. 0 \<le> i \<and> i < 256 \<longrightarrow>
         idx' ! i = \<lparr>t_offset = word_of_int (bufferedOffset cdb
                        + 8 * int (entry_count (entries cdb) 0 i)),
                     t_length = of_nat (length (entries cdb ! i))\<rparr>"
    by blast
  from ft show "fst (snd (finalize cdb)) = None"
    by (simp add: finalize_def assms(1) bufio_Flush_eq Let_def)
  assume i: "i < 256"
  then have "entry_count (entries cdb) 0 i \<le> entry_count (entries cdb) 0 256"
    by (intro entry_count_mono) simp_all
  with assms(2,3) have "0 \<le> bufferedOffset cdb + 8 * int (entry_count (entries cdb) 0 i)"
    and "bufferedOffset cdb + 8 * int (entry_count (entries cdb) 0 i) \<le> maxUint32"
    by simp_all
  then have "uint (word_of_int (bufferedOffset cdb
      + 8 * int (entry_count (entries cdb) 0 i)) :: uint32)
    = bufferedOffset cdb + 8 * int (entry_count (entries cdb) 0 i)"
    by (rule uint_word_of_int32)
  moreover have "fst (finalize cdb) = idx'"
    using ft by (simp add: finalize_def assms(1) bufio_Flush_eq Let_def)
  ultimately show "uint (t_offset (fst (finalize cdb) ! i)) =
      bufferedOffset cdb + 8 * int (entry_count (entries cdb) 0 i)"
    using inside i by simp
qed

text \<open>
  C4.  \<open>Put\<close> on a writer that has not been finalized adds the length of the record to
  the tracked offset and returns \<open>ErrTooMuchData\<close> exactly when the new offset is above
  \<open>2^32 - 1\<close>; when it returns nil, the offset it has stored in the pending entry is the
  offset before the record, not truncated.  \<open>finalize\<close> returns \<open>ErrTooMuchData\<close> when
  the offset after one of the table entries is above \<open>2^32 - 1\<close>, and when all stay
  within, it succeeds and every offset of the index is the true offset of its table.
  A whole run that would need more than \<open>2^32 - 1\<close> bytes ends with \<open>ErrTooMuchData\<close>.
\<close>

theorem capacity_ceiling:
  "(bufferedWriter cdb = Some buf \<and> length (entries cdb) = 256 \<and> 0 \<le> bufferedOffset cdb
      \<and> Put cdb key value = (err, cdb') \<longrightarrow>
        bufferedOffset cdb' = bufferedOffset cdb + int (8 + length key + length value)
        \<and> (maxUint32 < bufferedOffset cdb' \<longrightarrow> err = Some ErrTooMuchData)
        \<and> (bufferedOffset cdb' \<le> maxUint32 \<longrightarrow>
             err = None
             \<and> uint (e_offset (last (entries cdb' ! unat (CDBHashSum32 key AND 0xff))))
                 = bufferedOffset cdb))
   \<and> (bufferedWriter cdb = Some buf \<and> 0 < entry_count (entries cdb) 0 256
        \<and> maxUint32 < bufferedOffset cdb + 8 * int (entry_count (entries cdb) 0 256)
        \<and> finalize cdb = (idx, err, cdb') \<longrightarrow> err = Some ErrTooMuchData)
   \<and> (bufferedWriter cdb = Some buf \<and> 0 \<le> bufferedOffset cdb
        \<and> bufferedOffset cdb + 8 * int (entry_count (entries cdb) 0 256) \<le> maxUint32
        \<and> finalize cdb = (idx, err, cdb') \<longrightarrow>
          err = None
          \<and> (\<forall>i<256. uint (t_offset (idx ! i)) =
                bufferedOffset cdb + 8 * int (entry_count (entries cdb) 0 i)))
   \<and> (maxUint32 < int (2048 + sum_list (map (\<lambda>(k, v). 8 + length k + length v) records)
                        + 8 * length records) \<longrightarrow>
        build_Freeze w records = Inl ErrTooMuchData
        \<and> build_Close w records = Inl ErrTooMuchData)"
proof (intro conjI impI allI)
  assume a: "bufferedWriter cdb = Some buf \<and> length (entries cdb) = 256
      \<and> 0 \<le> bufferedOffset cdb \<and> Put cdb key value = (err, cdb')"
  note put = Put_live [of cdb buf key "value"]
  from a put show off: "bufferedOffset cdb' =
      bufferedOffset cdb + int (8 + length key + length value)"
    by (auto simp: length_record_bytes)
  {
    assume "maxUint32 < bufferedOffset cdb'"
    with a put off show "err = Some ErrTooMuchData"
      by (auto simp: length_record_bytes)
  next
    assume le: "bufferedOffset cdb' \<le> maxUint32"
    with a put off show "err = None"
      by (auto simp: length_record_bytes)
    have "unat (CDBHashSum32 key AND 0xff) < length (entries cdb)"
      using a bucket_less [of "CDBHashSum32 key"] by simp
    with a put have "last (entries cdb' ! unat (CDBHashSum32 key AND 0xff)) =
        \<lparr>e_hash = CDBHashSum32 key, e_offset = word_of_int (bufferedOffset cdb)\<rparr>"
      by auto
    moreover have "uint (word_of_int (bufferedOffset cdb) :: uint32) = bufferedOffset cdb"
      using a le off by (intro uint_word_of_int32) simp_all
    ultimately show "uint (e_offset (last (entries cdb' ! unat (CDBHashSum32 key AND 0xff))))
        = bufferedOffset cdb"
      by simp
  }
next
  assume "bufferedWriter cdb = Some buf \<and> 0 < entry_count (entries cdb) 0 256
        \<and> maxUint32 < bufferedOffset cdb + 8 * int (entry_count (entries cdb) 0 256)
        \<and> finalize cdb = (idx, err, cdb')"
  then show "err = Some ErrTooMuchData"
    using finalize_err [of cdb buf] by simp
next
  assume a: "bufferedWriter cdb = Some buf \<and> 0 \<le> bufferedOffset cdb
        \<and> bufferedOffset cdb + 8 * int (entry_count (entries cdb) 0 256) \<le> maxUint32
        \<and> finalize cdb = (idx, err, cdb')"
  then show "err = None"
    using finalize_ok(1) [of cdb buf] by simp
  fix i :: nat assume "i < 256"
  with a show "uint (t_offset (idx ! i)) =
      bufferedOffset cdb + 8 * int (entry_count (entries cdb) 0 i)"
    using finalize_ok(2) [of cdb buf i] by simp
next
  assume "maxUint32 < int (2048 + sum_list (map (\<lambda>(k, v). 8 + length k + length v) records)
                        + 8 * length records)"
  then have "\<not> fits records"
    by (simp add: fits_def length_data_bytes indexSize_def)
  then show "build_Freeze w records = Inl ErrTooMuchData"
    and "build_Close w records = Inl ErrTooMuchData"
    by (simp_all add: build_Freeze_eq build_Close_eq)
qed

theorem capacity_ceiling_witness:
  "fst (Put ((NewWriter empty_file)\<lparr>bufferedOffset := 4294967290\<rparr>)
         (bytes_of ''a'') (bytes_of ''a'')) = Some ErrTooMuchData
   \<and> bufferedOffset (snd (Put ((NewWriter empty_file)\<lparr>bufferedOffset := 4294967290\<rparr>)
         (bytes_of ''a'') (bytes_of ''a''))) = 4294967300
   \<and> fst (Put (NewWriter empty_file) (bytes_of ''a'') (bytes_of ''a'')) = None
   \<and> uint (e_offset (last (entries (snd (Put (NewWriter empty_file) (bytes_of ''a'')
         (bytes_of ''a''))) ! unat (CDBHashSum32 (bytes_of ''a'') AND 0xff)))) = 2048
   \<and> fst (snd (finalize ((snd (put_all (NewWriter empty_file)
         [(bytes_of ''a'', bytes_of ''a'')]))\<lparr>bufferedOffset := 4294967290\<rparr>)))
       = Some ErrTooMuchData
   \<and> fst (snd (finalize (snd (put_all (NewWriter empty_file) expectedRecords)))) = None
   \<and> uint (t_offset (fst (finalize (snd (put_all (NewWriter empty_file) expectedRecords)))
         ! 0)) = 2213
   \<and> build_Freeze empty_file [(replicate 4294967296 0, [])] = Inl ErrTooMuchData"
proof -
  let ?a = "bytes_of ''a''"
  let ?A = "(NewWriter empty_file)\<lparr>bufferedOffset := 4294967290\<rparr>"
  let ?B = "NewWriter empty_file"
  have la: "length ?a = 1"
    by (simp add: bytes_of_def)
  have hA: "bufferedWriter ?A = Some [] \<and> length (entries ?A) = 256 \<and> 0 \<le> bufferedOffset ?A
      \<and> Put ?A ?a ?a = (fst (Put ?A ?a ?a), snd (Put ?A ?a ?a))"
    by simp
  have hB: "bufferedWriter ?B = Some [] \<and> length (entries ?B) = 256 \<and> 0 \<le> bufferedOffset ?B
      \<and> Put ?B ?a ?a = (fst (Put ?B ?a ?a), snd (Put ?B ?a ?a))"
    by simp
  note A = capacity_ceiling [of ?A "[]" ?a ?a "fst (Put ?A ?a ?a)" "snd (Put ?A ?a ?a)",
      THEN conjunct1, rule_format, OF hA]
  note B = capacity_ceiling [of ?B "[]" ?a ?a "fst (Put ?B ?a ?a)" "snd (Put ?B ?a ?a)",
      THEN conjunct1, rule_format, OF hB]
  have A1: "bufferedOffset (snd (Put ?A ?a ?a)) = 4294967300"
    using A [THEN conjunct1] by (simp add: la)
  then have A2: "fst (Put ?A ?a ?a) = Some ErrTooMuchData"
    using A [THEN conjunct2, THEN conjunct1] by (simp add: maxUint32_def)
  have B1: "bufferedOffset (snd (Put ?B ?a ?a)) = 2058"
    using B [THEN conjunct1] by (simp add: la indexSize_def)
  then have B2: "fst (Put ?B ?a ?a) = None
      \<and> uint (e_offset (last (entries (snd (Put ?B ?a ?a))
            ! unat (CDBHashSum32 ?a AND 0xff)))) = 2048"
    using B [THEN conjunct2, THEN conjunct2] by (simp add: maxUint32_def indexSize_def)
  have "int indexSize + int (length (data_bytes [(?a, ?a)])) \<le> maxUint32"
    by (simp add: length_record_bytes la indexSize_def maxUint32_def)
  from put_all_NewWriter [OF this, of empty_file] obtain c bufc where
    c: "put_all (NewWriter empty_file) [(?a, ?a)] = (None, c)"
    and cb: "bufferedWriter c = Some bufc"
    and ce: "entries c = pending_all [(?a, ?a)]"
    by blast
  let ?C = "c\<lparr>bufferedOffset := 4294967290\<rparr>"
  have hC: "bufferedWriter ?C = Some bufc
      \<and> 0 < entry_count (entries ?C) 0 256
      \<and> maxUint32 < bufferedOffset ?C + 8 * int (entry_count (entries ?C) 0 256)
      \<and> finalize ?C = (fst (finalize ?C), fst (snd (finalize ?C)), snd (snd (finalize ?C)))"
    by (simp add: cb ce entry_count_pending_all maxUint32_def)
  have C1: "fst (snd (finalize ?C)) = Some ErrTooMuchData"
    using capacity_ceiling [where cdb = ?C and buf = bufc
        and idx = "fst (finalize ?C)" and err = "fst (snd (finalize ?C))"
        and cdb' = "snd (snd (finalize ?C))",
        THEN conjunct2, THEN conjunct1, rule_format, OF hC] .
  have "int indexSize + int (length (data_bytes expectedRecords)) \<le> maxUint32"
    using fits_expectedRecords by (simp add: fits_def)
  from put_all_NewWriter [OF this, of empty_file] obtain d bufd where
    d: "put_all (NewWriter empty_file) expectedRecords = (None, d)"
    and db: "bufferedWriter d = Some bufd"
    and de: "entries d = pending_all expectedRecords"
    and bo: "bufferedOffset d = int indexSize + int (length (data_bytes expectedRecords))"
    by blast
  have len: "length (data_bytes expectedRecords) = 165"
    unfolding length_data_bytes by (simp add: expectedRecords_def bytes_of_def)
  have hD: "bufferedWriter d = Some bufd \<and> 0 \<le> bufferedOffset d
      \<and> bufferedOffset d + 8 * int (entry_count (entries d) 0 256) \<le> maxUint32
      \<and> finalize d = (fst (finalize d), fst (snd (finalize d)), snd (snd (finalize d)))"
    using fits_expectedRecords by (simp add: db de bo entry_count_pending_all fits_def)
  note D = capacity_ceiling [where cdb = d and buf = bufd
        and idx = "fst (finalize d)" and err = "fst (snd (finalize d))"
        and cdb' = "snd (snd (finalize d))",
        THEN conjunct2, THEN conjunct2, THEN conjunct1, rule_format, OF hD]
  have D1: "fst (snd (finalize d)) = None"
    using D by simp
  have D2: "uint (t_offset (fst (finalize d) ! 0)) = 2213"
    using D [THEN conjunct2, rule_format, of 0] by (simp add: bo len indexSize_def)
  have hE: "maxUint32 < int (2048 + sum_list (map (\<lambda>(k, v). 8 + length k + length v)
        [(replicate 4294967296 (0::byte), [] :: byte list)])
      + 8 * length [(replicate 4294967296 (0::byte), [] :: byte list)])"
    by (simp add: maxUint32_def)
  have E1: "build_Freeze empty_file [(replicate 4294967296 0, [])] = Inl ErrTooMuchData"
    using capacity_ceiling [where records = "[(replicate 4294967296 0, [])]" and w = empty_file,
        THEN conjunct2, THEN conjunct2, THEN conjunct2, rule_format, OF hE] by simp
  from A1 A2 B2 C1 D1 D2 E1 show ?thesis
    by (simp only: c d snd_conv simp_thms)
qed

section \<open>The claims about finishing\<close>

lemma finalizeOnce_finish [simp]: "finalizeOnce (finish cdb op)"
  by (cases op)
    (auto simp: Close_def Freeze_def finalizeOnce_Do_def sink_Close_def
      split: prod.splits option.splits)

lemma finish_done:
  assumes "finalizeOnce cdb"
  shows "contents (writer (finish cdb op)) = contents (writer cdb)"
    and "position (writer (finish cdb op)) = position (writer cdb)"
    and "entries (finish cdb op) = entries cdb"
    and "bufferedWriter (finish cdb op) = bufferedWriter cdb"
    and "bufferedOffset (finish cdb op) = bufferedOffset cdb"
    and "finish cdb OpFreeze = cdb"
  using assms
  by (cases op; simp add: Close_def Freeze_def finalizeOnce_Do_def sink_Close_def)+

lemma finish_all_contents:
  "finalizeOnce cdb \<Longrightarrow> contents (writer (finish_all cdb ops)) = contents (writer cdb)"
  by (induction ops arbitrary: cdb) (simp_all add: finish_done)

lemma finish_first:
  "finish cdb op = (snd (snd (finalizeOnce_Do cdb)))
     \<lparr>writer := (writer (snd (snd (finalizeOnce_Do cdb))))
        \<lparr>closed := closed (writer (finish cdb op))\<rparr>\<rparr>"
  by (cases op)
    (auto simp: Close_def Freeze_def finalizeOnce_Do_def sink_Close_def
      split: prod.splits option.splits)

lemma contents_finish_built:
  assumes "put_all (NewWriter w) records = (None, cdb)" and "fits records"
  shows "contents (writer (finish cdb op)) = built_file (contents w) records"
proof -
  from Freeze_built [OF assms(2), of "w\<lparr>isReaderAt := True\<rparr>"] obtain c c' where
    pa': "put_all (NewWriter (w\<lparr>isReaderAt := True\<rparr>)) records = (None, c)"
    by auto
  from assms(2) have le: "int indexSize + int (length (data_bytes records)) \<le> maxUint32"
    and fits': "int indexSize + int (length (data_bytes records)) + 8 * int (length records)
        \<le> maxUint32"
    by (simp_all add: fits_def)
  from put_all_NewWriter [OF le, of w] assms(1) obtain buf where
    bw: "bufferedWriter cdb = Some buf"
    and fl: "sink_Write (writer cdb) buf = sink_Write (writer (NewWriter w)) (data_bytes records)"
    and f: "\<not> finalizeOnce cdb"
    and bo: "bufferedOffset cdb = int indexSize + int (length (data_bytes records))"
    and ents: "entries cdb = pending_all records"
    by auto
  note fin = finalize_built [OF bw fl ents bo fits']
  have "contents (writer (snd (snd (finalizeOnce_Do cdb)))) = built_file (contents w) records"
    using f by (simp add: finalizeOnce_Do_def fin built_file_def sink_Write_def sink_Seek_def)
  moreover have "contents (writer (finish cdb op)) =
      contents (writer (snd (snd (finalizeOnce_Do cdb))))"
    by (subst finish_first) simp
  ultimately show ?thesis
    by simp
qed

lemma Freeze_again_zero_index:
  assumes "finalizeOnce cdb" and "isReaderAt (writer cdb)"
  shows "fst (Freeze cdb) = Inr \<lparr>reader = contents (writer cdb), index = zero_index\<rparr>"
    and "Get \<lparr>reader = contents (writer cdb), index = zero_index\<rparr> key = Inr None"
proof -
  show "fst (Freeze cdb) = Inr \<lparr>reader = contents (writer cdb), index = zero_index\<rparr>"
    using assms by (simp add: Freeze_def finalizeOnce_Do_def)
  have "zero_index ! unat (CDBHashSum32 key AND 0xff) = \<lparr>t_offset = 0, t_length = 0\<rparr>"
    using bucket_less [of "CDBHashSum32 key"] by (simp add: zero_index_def)
  then show "Get \<lparr>reader = contents (writer cdb), index = zero_index\<rparr> key = Inr None"
    by (simp add: Get_def cdbHash_Sum32_def cdbHash_Write_def newCDBHash_def CDBHashSum32_def)
qed

text \<open>
  What holds of repeated finishing calls: every finishing call leaves the \<open>sync.Once\<close>
  done, and a finishing call on a writer whose \<open>finalize\<close> has run writes nothing, so
  after records that fit have been put, the file that any sequence of finishing calls
  leaves is the file that the first of them leaves, with one header and one set of tables.
  (A \<open>Close\<close> that is not the first finishing call still closes the sink, and answers
  with the sink's error when that is closed already.)
\<close>

lemma finish_all_file:
  assumes "put_all (NewWriter w) records = (None, cdb)" and "fits records"
  shows "contents (writer (finish_all cdb (op # ops))) = built_file (contents w) records"
    and "New (contents (writer (finish_all cdb (op # ops)))) = Inr (built_CDB (contents w) records)"
proof -
  have "contents (writer (finish_all cdb (op # ops))) = contents (writer (finish cdb op))"
    by (simp add: finish_all_contents)
  then show 1: "contents (writer (finish_all cdb (op # ops))) = built_file (contents w) records"
    using contents_finish_built [OF assms, of op] by simp
  show "New (contents (writer (finish_all cdb (op # ops)))) = Inr (built_CDB (contents w) records)"
    unfolding 1 by (rule New_built)
qed

text \<open>
  C5.  The store after a second finishing call does not satisfy the round trip.  The
  writer on an empty file is given the nine records of the test data.  The first
  \<open>Freeze\<close> returns a store in which \<open>foo\<close> is found with its value \<open>bar\<close>.  A second
  \<open>Freeze\<close> leaves the file as it is and returns a store that reads the same file with
  the index that \<open>var index index\<close> (writer.go:126) declares and \<open>finalizeOnce.Do\<close>, which
  skips its function, never assigns: all 256 tables have the length 0, and \<open>Get\<close> of
  \<open>foo\<close> answers "not found".  In the second run the one record has the key \<open>ootpwgq\<close>,
  whose hash is 0, and the writer is finished with \<open>Freeze\<close> and then \<open>Close\<close>: the file,
  opened again, is the store of that record, and \<open>Get\<close> of the key answers "not found".
\<close>

theorem second_finish_breaks_round_trip:
  "fst (put_all (NewWriter empty_file) expectedRecords) = None
   \<and> fst (Freeze (snd (put_all (NewWriter empty_file) expectedRecords)))
       = Inr (built_CDB [] expectedRecords)
   \<and> Get (built_CDB [] expectedRecords) (bytes_of ''foo'') = Inr (Some (bytes_of ''bar''))
   \<and> fst (Freeze (snd (Freeze (snd (put_all (NewWriter empty_file) expectedRecords)))))
       = Inr \<lparr>reader = built_file [] expectedRecords, index = zero_index\<rparr>
   \<and> contents (writer (snd (Freeze (snd (Freeze (snd (put_all (NewWriter empty_file)
         expectedRecords)))))))
       = built_file [] expectedRecords
   \<and> Get \<lparr>reader = built_file [] expectedRecords, index = zero_index\<rparr> (bytes_of ''foo'')
       = Inr None
   \<and> fst (put_all (NewWriter empty_file) [(bytes_of ''ootpwgq'', bytes_of ''zero'')]) = None
   \<and> New (contents (writer (finish_all
         (snd (put_all (NewWriter empty_file) [(bytes_of ''ootpwgq'', bytes_of ''zero'')]))
         [OpFreeze, OpClose])))
       = Inr (built_CDB [] [(bytes_of ''ootpwgq'', bytes_of ''zero'')])
   \<and> Get (built_CDB [] [(bytes_of ''ootpwgq'', bytes_of ''zero'')]) (bytes_of ''ootpwgq'')
       = Inr None"
proof -
  let ?W = "snd (put_all (NewWriter empty_file) expectedRecords)"
  from Freeze_built [OF fits_expectedRecords, of empty_file] obtain W1 where
    1: "put_all (NewWriter empty_file) expectedRecords = (None, ?W)"
    and fr: "Freeze ?W = (Inr (built_CDB [] expectedRecords), W1)"
    and once: "finalizeOnce W1"
    and fl1: "contents (writer W1) = built_file [] expectedRecords"
    and ra: "isReaderAt (writer W1)"
    by (auto simp: empty_file_def built_CDB_def)
  have 2: "fst (Freeze ?W) = Inr (built_CDB [] expectedRecords)"
    by (simp add: fr)
  have foo: "(bytes_of ''foo'', bytes_of ''bar'') \<in> set expectedRecords"
    by (simp add: expectedRecords_def)
  have nz: "CDBHashSum32 k \<noteq> 0" if "k \<in> fst ` set expectedRecords" for k
    using hashes_expectedRecords that by (auto simp: list_all_iff)
  have 3: "Get (built_CDB [] expectedRecords) (bytes_of ''foo'') = Inr (Some (bytes_of ''bar''))"
    using fits_expectedRecords distinct_expectedRecords nz foo by (rule Get_built_found)
  have 4: "fst (Freeze (snd (Freeze ?W)))
      = Inr \<lparr>reader = built_file [] expectedRecords, index = zero_index\<rparr>"
    using Freeze_again_zero_index(1) [OF once ra] by (simp add: fr fl1)
  have "snd (Freeze W1) = W1"
    using finish_done(6) [OF once] by simp
  then have 5: "contents (writer (snd (Freeze (snd (Freeze ?W))))) = built_file [] expectedRecords"
    by (simp add: fr fl1)
  have 6: "Get \<lparr>reader = built_file [] expectedRecords, index = zero_index\<rparr> (bytes_of ''foo'')
      = Inr None"
    using Freeze_again_zero_index(2) [OF once ra] by (simp add: fl1)
  let ?recs = "[(bytes_of ''ootpwgq'', bytes_of ''zero'')]"
  let ?Z = "snd (put_all (NewWriter empty_file) ?recs)"
  have fits: "fits ?recs"
    by (simp add: fits_eval bytes_of_def)
  then have "int indexSize + int (length (data_bytes ?recs)) \<le> maxUint32"
    by (simp add: fits_def)
  from put_all_NewWriter [OF this, of empty_file]
  have z: "put_all (NewWriter empty_file) ?recs = (None, ?Z)"
    by auto
  then have 7: "fst (put_all (NewWriter empty_file) ?recs) = None"
    by (metis fst_conv)
  have 8: "New (contents (writer (finish_all ?Z [OpFreeze, OpClose]))) = Inr (built_CDB [] ?recs)"
    using finish_all_file(2) [OF z fits, of OpFreeze "[OpClose]"] by (simp add: empty_file_def)
  have 9: "Get (built_CDB [] ?recs) (bytes_of ''ootpwgq'') = Inr None"
    using fits zero_hash_key' by (rule Get_built_zero_hash)
  have 0: "fst (put_all (NewWriter empty_file) expectedRecords) = None"
    using 1 by (metis fst_conv)
  from 0 2 3 4 5 6 7 8 9 show ?thesis
    by (simp only: simp_thms)
qed

section \<open>The claim about a late Put\<close>

















end
